theory Spec2Isabelle
  imports Complex_Main
begin

section \<open>Numbers\<close>

text \<open>
  The program computes with NumPy \<open>float64\<close> scalars. A finite value is modelled by the
  real number it stands for; the three non-finite values are kept apart, because NumPy
  does not raise on a division by zero: it returns \<open>inf\<close>, \<open>-inf\<close> or \<open>nan\<close> and the
  program carries on with that value. The rounding of a finite result to 53 bits is not
  modelled, nor is the sign of a zero. For sums, products and quotients the range of
  \<open>float64\<close> is not modelled either; for powers it is, since an exponent takes ordinary
  weights out of the range: \<open>0.0001 ** 100.0\<close> is \<open>0.0\<close>.
\<close>

datatype npfloat = Fin real | PInf | NInf | NaN

fun np_add :: "npfloat \<Rightarrow> npfloat \<Rightarrow> npfloat" where
  "np_add (Fin x) (Fin y) = Fin (x + y)"
| "np_add NaN _ = NaN"
| "np_add _ NaN = NaN"
| "np_add PInf NInf = NaN"
| "np_add NInf PInf = NaN"
| "np_add PInf _ = PInf"
| "np_add _ PInf = PInf"
| "np_add NInf _ = NInf"
| "np_add _ NInf = NInf"

definition inf_signed :: "bool \<Rightarrow> npfloat" where
  "inf_signed positive = (if positive then PInf else NInf)"

fun np_mul :: "npfloat \<Rightarrow> npfloat \<Rightarrow> npfloat" where
  "np_mul (Fin x) (Fin y) = Fin (x * y)"
| "np_mul NaN _ = NaN"
| "np_mul _ NaN = NaN"
| "np_mul (Fin x) PInf = (if x = 0 then NaN else inf_signed (0 < x))"
| "np_mul (Fin x) NInf = (if x = 0 then NaN else inf_signed (x < 0))"
| "np_mul PInf (Fin y) = (if y = 0 then NaN else inf_signed (0 < y))"
| "np_mul NInf (Fin y) = (if y = 0 then NaN else inf_signed (y < 0))"
| "np_mul PInf PInf = PInf"
| "np_mul NInf NInf = PInf"
| "np_mul PInf NInf = NInf"
| "np_mul NInf PInf = NInf"

text \<open>\<open>x / y\<close> on \<open>float64\<close>: a warning and a non-finite value where Python's own
  \<open>float\<close> would raise \<open>ZeroDivisionError\<close>.\<close>

fun np_div :: "npfloat \<Rightarrow> npfloat \<Rightarrow> npfloat" where
  "np_div (Fin x) (Fin y) =
     (if y \<noteq> 0 then Fin (x / y) else if x = 0 then NaN else inf_signed (0 < x))"
| "np_div NaN _ = NaN"
| "np_div _ NaN = NaN"
| "np_div (Fin x) PInf = Fin 0"
| "np_div (Fin x) NInf = Fin 0"
| "np_div PInf (Fin y) = inf_signed (0 \<le> y)"
| "np_div NInf (Fin y) = inf_signed (y < 0)"
| "np_div PInf PInf = NaN"
| "np_div PInf NInf = NaN"
| "np_div NInf PInf = NaN"
| "np_div NInf NInf = NaN"

text \<open>The \<open>float64\<close> that stands for a real result \<open>z\<close>, as far as the range goes. The
  largest finite value is \<open>2^1024 - 2^971\<close> and the smallest positive one \<open>2^-1074\<close>;
  rounding to nearest takes a magnitude of \<open>2^1024 - 2^970\<close> or more to an infinity, and
  one of \<open>2^-1075\<close> or less to zero.\<close>

definition float64_range :: "real \<Rightarrow> npfloat" where
  "float64_range z =
     (if 2 ^ 1024 - 2 ^ 970 \<le> \<bar>z\<bar> then inf_signed (0 < z)
      else if \<bar>z\<bar> \<le> 1 / 2 ^ 1075 then Fin 0
      else Fin z)"

text \<open>\<open>x ** a\<close> for a \<open>float64\<close> base and a finite exponent: the power overflows to
  \<open>inf\<close> and underflows to zero, with a warning and no exception.\<close>

fun np_pow :: "npfloat \<Rightarrow> real \<Rightarrow> npfloat" where
  "np_pow (Fin x) a =
     (if a = 0 then Fin 1
      else if 0 < x then float64_range (x powr a)
      else if x = 0 then (if 0 < a then Fin 0 else PInf)
      else if a \<in> \<int> then float64_range (x powi \<lfloor>a\<rfloor>) else NaN)"
| "np_pow NaN a = (if a = 0 then Fin 1 else NaN)"
| "np_pow PInf a = (if a = 0 then Fin 1 else if 0 < a then PInf else Fin 0)"
| "np_pow NInf a =
     (if a = 0 then Fin 1
      else if 0 < a then (if a \<in> \<int> \<and> odd \<lfloor>a\<rfloor> then NInf else PInf)
      else Fin 0)"

text \<open>\<open>x < y\<close>; every comparison with \<open>nan\<close> is false.\<close>

fun np_lt :: "npfloat \<Rightarrow> npfloat \<Rightarrow> bool" where
  "np_lt (Fin x) (Fin y) = (x < y)"
| "np_lt NaN _ = False"
| "np_lt _ NaN = False"
| "np_lt _ NInf = False"
| "np_lt PInf _ = False"
| "np_lt NInf _ = True"
| "np_lt _ PInf = True"

text \<open>\<open>x >= y\<close>.\<close>

fun np_ge :: "npfloat \<Rightarrow> npfloat \<Rightarrow> bool" where
  "np_ge (Fin x) (Fin y) = (y \<le> x)"
| "np_ge NaN _ = False"
| "np_ge _ NaN = False"
| "np_ge _ NInf = True"
| "np_ge PInf _ = True"
| "np_ge NInf _ = False"
| "np_ge _ PInf = False"

text \<open>\<open>x == y\<close>, the equality a \<open>dict\<close> uses on keys that are different objects.\<close>

fun np_eq :: "npfloat \<Rightarrow> npfloat \<Rightarrow> bool" where
  "np_eq NaN _ = False"
| "np_eq _ NaN = False"
| "np_eq x y = (x = y)"

text \<open>Python's builtin \<open>max(x, y)\<close> keeps its first argument unless the second is greater.\<close>

definition py_max :: "npfloat \<Rightarrow> npfloat \<Rightarrow> npfloat" where
  "py_max x y = (if np_lt x y then y else x)"

text \<open>Python's builtin \<open>sum\<close>: a left fold of \<open>+\<close> from the integer 0.\<close>

definition py_sum :: "npfloat list \<Rightarrow> npfloat" where
  "py_sum xs = foldl np_add (Fin 0) xs"

section \<open>Data model\<close>

type_synonym coord = "int \<times> int"

text \<open>An ant: \<open>pos_memory\<close> is the \<open>OrderedDict\<close> of visited coordinates, as the list of
  its keys, oldest first (all values are \<open>None\<close>). The ant's reference to its colony is
  the colony argument of the functions below.\<close>

record ant =
  row :: int
  col :: int
  pos_memory :: "coord list"
  special :: bool

text \<open>The colony. \<open>rows\<close> and \<open>cols\<close> are \<open>img.shape\<close>, which is also the shape of
  \<open>intensities\<close> and of the first two axes of \<open>pheromone\<close>; the third axis of
  \<open>pheromone\<close> has \<open>m + 1\<close> layers, and index \<open>-1\<close> is layer \<open>m\<close>. An array is a total
  function here; the program reads and writes cells inside the shape only. Samples are
  non-negative integers. The counts \<open>m\<close> and \<open>ant_mem\<close> are naturals.\<close>

record colony =
  alpha :: real
  beta :: real
  rows :: nat
  cols :: nat
  img :: "int \<Rightarrow> int \<Rightarrow> nat"
  i_max :: nat
  intensities :: "int \<Rightarrow> int \<Rightarrow> npfloat"
  ants :: "ant list"
  pheromone :: "int \<Rightarrow> int \<Rightarrow> nat \<Rightarrow> npfloat"
  m :: nat
  ant_mem :: nat
  tau_min :: real
  p :: real
  b :: real
  memory_index :: nat

datatype error = ValueError

text \<open>The random choices of one ant step: the order in which
  \<open>random.sample(directions, 8)\<close> lists the directions, and the two raw draws behind
  \<open>random.randrange\<close>.\<close>

record rnd =
  order :: "coord list"
  raw_row :: nat
  raw_col :: nat

definition directions :: "coord list" where
  "directions = [(-1, 0), (-1, 1), (0, 1), (1, 1), (1, 0), (1, -1), (0, -1), (-1, -1)]"

text \<open>\<open>random.randrange(n)\<close>: \<open>ValueError\<close> on an empty range, else a value below \<open>n\<close>.\<close>

definition randrange :: "nat \<Rightarrow> nat \<Rightarrow> error + int" where
  "randrange n raw = (if n = 0 then Inl ValueError else Inr (int (raw mod n)))"

section \<open>The ant\<close>

text \<open>\<open>Ant.update_memory\<close>: storing a key that is present leaves the order as it is.\<close>

definition update_memory :: "colony \<Rightarrow> ant \<Rightarrow> ant" where
  "update_memory c a =
     (let mem = (if (row a, col a) \<in> set (pos_memory a) then pos_memory a
                 else pos_memory a @ [(row a, col a)])
      in if length mem > ant_mem c then a\<lparr>pos_memory := tl mem\<rparr>
         else a\<lparr>pos_memory := mem\<rparr>)"

text \<open>\<open>Ant.index_probability\<close>.\<close>

definition index_probability :: "colony \<Rightarrow> coord \<Rightarrow> npfloat" where
  "index_probability c idx =
     (case idx of (r, k) \<Rightarrow>
        np_mul (np_pow (pheromone c r k (m c)) (alpha c)) (np_pow (intensities c r k) (beta c)))"

definition in_bounds :: "colony \<Rightarrow> coord \<Rightarrow> bool" where
  "in_bounds c xy =
     (case xy of (x, y) \<Rightarrow> \<not> (x < 0 \<or> x \<ge> int (rows c) \<or> y < 0 \<or> y \<ge> int (cols c)))"

text \<open>\<open>Ant.get_index_probabilities\<close>: the in-bounds neighbours in the sampled order, and
  their weights.\<close>

definition positions_of :: "colony \<Rightarrow> ant \<Rightarrow> coord list \<Rightarrow> coord list" where
  "positions_of c a ds = filter (in_bounds c) (map (\<lambda>d. (row a + fst d, col a + snd d)) ds)"

definition get_index_probabilities :: "colony \<Rightarrow> ant \<Rightarrow> coord list \<Rightarrow> npfloat list \<times> coord list" where
  "get_index_probabilities c a ds =
     (map (index_probability c) (positions_of c a ds), positions_of c a ds)"

text \<open>\<open>dict(zip(probabilities, positions))\<close> as the list of its items in insertion order:
  a key that is already present keeps its place and takes the new value.\<close>

fun dict_set :: "(npfloat \<times> coord) list \<Rightarrow> npfloat \<Rightarrow> coord \<Rightarrow> (npfloat \<times> coord) list" where
  "dict_set [] k v = [(k, v)]"
| "dict_set ((k', v') # es) k v =
     (if np_eq k' k then (k', v) # es else (k', v') # dict_set es k v)"

definition dict_zip :: "npfloat list \<Rightarrow> coord list \<Rightarrow> (npfloat \<times> coord) list" where
  "dict_zip ks vs = foldl (\<lambda>d kv. dict_set d (fst kv) (snd kv)) [] (zip ks vs)"

text \<open>\<open>keys.sort(reverse=True)\<close>. The items are sorted along with their keys: the loop
  of \<open>Ant.max\<close> looks each key up again, and finds the item the key came from. The keys are
  compared with \<open><\<close> only, and where \<open>nan\<close> keys stand among numbers the outcome depends
  on which comparisons are made. So the sort is modelled as CPython 3.11 runs it
  on a list of fewer than 64 items, and the dictionary has at most eight: the list is
  reversed, its leading run is found by \<open>count_run\<close> and reversed when it descends, the
  other items are inserted by \<open>binarysort\<close>, and the list is reversed again.\<close>

type_synonym entry = "npfloat \<times> coord"

definition key_lt :: "entry \<Rightarrow> entry \<Rightarrow> bool" where
  "key_lt e1 e2 = np_lt (fst e1) (fst e2)"

text \<open>The number of items that carry on a strictly descending run after \<open>prev\<close>, and an
  ascending one.\<close>

fun run_descending :: "entry \<Rightarrow> entry list \<Rightarrow> nat" where
  "run_descending prev [] = 0"
| "run_descending prev (x # xs) = (if key_lt x prev then Suc (run_descending x xs) else 0)"

fun run_ascending :: "entry \<Rightarrow> entry list \<Rightarrow> nat" where
  "run_ascending prev [] = 0"
| "run_ascending prev (x # xs) = (if key_lt x prev then 0 else Suc (run_ascending x xs))"

text \<open>\<open>count_run\<close>: the length of the leading run, and whether it descends.\<close>

fun count_run :: "entry list \<Rightarrow> nat \<times> bool" where
  "count_run (x0 # x1 # xs) =
     (if key_lt x1 x0 then (Suc (Suc (run_descending x1 xs)), True)
      else (Suc (Suc (run_ascending x1 xs)), False))"
| "count_run xs = (length xs, False)"

text \<open>The binary search of \<open>binarysort\<close> for the place of \<open>pivot\<close> in the sorted items
  \<open>pre\<close>, between the indices \<open>l\<close> and \<open>r\<close>.\<close>

function bisect :: "entry \<Rightarrow> entry list \<Rightarrow> nat \<Rightarrow> nat \<Rightarrow> nat" where
  "bisect pivot pre l r =
     (if l < r then
        (if key_lt pivot (pre ! (l + (r - l) div 2)) then bisect pivot pre l (l + (r - l) div 2)
         else bisect pivot pre (Suc (l + (r - l) div 2)) r)
      else l)"
  by pat_completeness auto
termination
  by (relation "measure (\<lambda>(pivot, pre, l, r). r - l)") auto

declare bisect.simps [simp del]

definition binary_insert :: "entry list \<Rightarrow> entry \<Rightarrow> entry list" where
  "binary_insert pre pivot =
     (let l = bisect pivot pre 0 (length pre) in take l pre @ pivot # drop l pre)"

definition binarysort :: "entry list \<Rightarrow> entry list \<Rightarrow> entry list" where
  "binarysort run rest = foldl binary_insert run rest"

definition sort_reverse :: "entry list \<Rightarrow> entry list" where
  "sort_reverse es =
     (if length es < 2 then es
      else
        (let xs = rev es in
         case count_run xs of (n, desc) \<Rightarrow>
           rev (binarysort (if desc then rev (take n xs) else take n xs) (drop n xs))))"

text \<open>\<open>Ant.max\<close>.\<close>

definition ant_max :: "ant \<Rightarrow> (npfloat \<times> coord) list \<Rightarrow> coord option" where
  "ant_max a probabilities_to_pos =
     (case filter (\<lambda>e. snd e \<notin> set (pos_memory a)) (sort_reverse probabilities_to_pos) of
        [] \<Rightarrow> None
      | e # _ \<Rightarrow> Some (snd e))"

text \<open>\<open>Ant.get_max_probability_pos\<close>.\<close>

definition get_max_probability_pos :: "colony \<Rightarrow> ant \<Rightarrow> coord list \<Rightarrow> coord option" where
  "get_max_probability_pos c a ds =
     (case get_index_probabilities c a ds of (numerators, positions) \<Rightarrow>
        let denominator = py_sum numerators;
            probabilities = map (\<lambda>x. np_div x denominator) numerators
        in ant_max a (dict_zip probabilities positions))"

text \<open>The two \<open>randrange\<close> assignments that relocate the ant.\<close>

definition relocate :: "colony \<Rightarrow> rnd \<Rightarrow> ant \<Rightarrow> error + ant" where
  "relocate c r a =
     (case randrange (rows c) (raw_row r) of
        Inl e \<Rightarrow> Inl e
      | Inr x \<Rightarrow>
          (case randrange (cols c) (raw_col r) of
             Inl e \<Rightarrow> Inl e
           | Inr y \<Rightarrow> Inr (a\<lparr>row := x, col := y\<rparr>)))"

text \<open>\<open>Ant.deposit_pheromone\<close>, one step of an ant: the ant and the pheromone array
  after the step.\<close>

definition deposit_pheromone ::
  "rnd \<Rightarrow> colony \<Rightarrow> ant \<Rightarrow> error + (ant \<times> (int \<Rightarrow> int \<Rightarrow> nat \<Rightarrow> npfloat))" where
  "deposit_pheromone r c a0 =
     (let a = update_memory c a0 in
      case get_max_probability_pos c a (order r) of
        None \<Rightarrow>
          (case relocate c r a of Inl e \<Rightarrow> Inl e | Inr a' \<Rightarrow> Inr (a', pheromone c))
      | Some (x, y) \<Rightarrow>
          if np_ge (intensities c x y) (Fin (b c))
          then Inr (a\<lparr>row := x, col := y\<rparr>,
                    (pheromone c)(x := (pheromone c x)(y := (pheromone c x y)
                       (memory_index c := intensities c x y))))
          else (case relocate c r a of Inl e \<Rightarrow> Inl e | Inr a' \<Rightarrow> Inr (a', pheromone c)))"

text \<open>The step of the \<open>k\<close>-th ant of the colony, as the loop of \<open>iterate\<close> runs it on the
  shared colony.\<close>

definition ant_step :: "nat \<Rightarrow> rnd \<Rightarrow> colony \<Rightarrow> error + colony" where
  "ant_step k r c =
     (case deposit_pheromone r c (ants c ! k) of
        Inl e \<Rightarrow> Inl e
      | Inr (a', ph) \<Rightarrow> Inr (c\<lparr>ants := (ants c)[k := a'], pheromone := ph\<rparr>))"

text \<open>A recorded visit: the ant is at \<open>xy\<close> when its next step starts, and
  \<open>update_memory\<close> records the coordinate. \<open>visits\<close> records a sequence of coordinates,
  the earliest first.\<close>

definition visit :: "colony \<Rightarrow> ant \<Rightarrow> coord \<Rightarrow> ant" where
  "visit c a xy = update_memory c (a\<lparr>row := fst xy, col := snd xy\<rparr>)"

definition visits :: "colony \<Rightarrow> ant \<Rightarrow> coord list \<Rightarrow> ant" where
  "visits c a vs = foldl (visit c) a vs"

section \<open>The colony\<close>

text \<open>\<open>np.ndindex(rows, cols)\<close>.\<close>

definition ndindex :: "nat \<Rightarrow> nat \<Rightarrow> coord list" where
  "ndindex nr nc = concat (map (\<lambda>i. map (\<lambda>j. (int i, int j)) [0..<nc]) [0..<nr])"

text \<open>The body of the loop of \<open>Colony.adjust_pheromone\<close> at one cell.\<close>

definition adjust_cell :: "colony \<Rightarrow> coord \<Rightarrow> colony" where
  "adjust_cell c ij =
     (case ij of (i, j) \<Rightarrow>
        let deltas = map (pheromone c i j) [0..<m c];
            total = py_max (np_add (np_mul (Fin (1 - p c)) (pheromone c i j (m c))) (py_sum deltas))
                      (Fin (tau_min c));
            ph1 = (pheromone c)(i := (pheromone c i)(j := (pheromone c i j)(m c := total)));
            ph2 = ph1(i := (ph1 i)(j := (ph1 i j)(memory_index c := Fin 0)))
        in c\<lparr>pheromone := ph2\<rparr>)"

text \<open>\<open>Colony.adjust_pheromone\<close>.\<close>

definition adjust_pheromone :: "colony \<Rightarrow> colony" where
  "adjust_pheromone c =
     (let c1 = (if int (memory_index c) \<ge> int (m c) - 1 then c\<lparr>memory_index := 0\<rparr>
                else c\<lparr>memory_index := memory_index c + 1\<rparr>)
      in foldl adjust_cell c1 (ndindex (rows c1) (cols c1)))"

text \<open>The total a cell gets in \<open>adjust_pheromone\<close>, from the state before the loop
  reaches the cell.\<close>

definition cell_total :: "colony \<Rightarrow> int \<Rightarrow> int \<Rightarrow> npfloat" where
  "cell_total c i j =
     py_max (np_add (np_mul (Fin (1 - p c)) (pheromone c i j (m c)))
                    (py_sum (map (pheromone c i j) [0..<m c])))
            (Fin (tau_min c))"

text \<open>The loop \<open>for ant in self.ants: ant.deposit_pheromone()\<close> of \<open>Colony.iterate\<close>,
  over the indices of the ants; \<open>r k\<close> holds the random choices of ant \<open>k\<close>.\<close>

fun step_ants :: "(nat \<Rightarrow> rnd) \<Rightarrow> nat list \<Rightarrow> colony \<Rightarrow> error + colony" where
  "step_ants r [] c = Inr c"
| "step_ants r (k # ks) c =
     (case ant_step k (r k) c of Inl e \<Rightarrow> Inl e | Inr c' \<Rightarrow> step_ants r ks c')"

text \<open>The body of the loop of \<open>Colony.iterate\<close>; printing and the export of images are
  left out.\<close>

definition iteration :: "(nat \<Rightarrow> rnd) \<Rightarrow> colony \<Rightarrow> error + colony" where
  "iteration r c =
     (case step_ants r [0..<length (ants c)] c of
        Inl e \<Rightarrow> Inl e
      | Inr c' \<Rightarrow> Inr (adjust_pheromone c'))"

text \<open>\<open>Colony.iterate\<close>: \<open>rs i k\<close> holds the random choices of ant \<open>k\<close> in iteration \<open>i\<close>.\<close>

fun iterate :: "(nat \<Rightarrow> nat \<Rightarrow> rnd) \<Rightarrow> nat \<Rightarrow> colony \<Rightarrow> error + colony" where
  "iterate rs 0 c = Inr c"
| "iterate rs (Suc n) c =
     (case iterate rs n c of Inl e \<Rightarrow> Inl e | Inr c' \<Rightarrow> iteration (rs n) c')"

subsection \<open>Construction\<close>

text \<open>\<open>img.max()\<close>, which raises \<open>ValueError\<close> on an array without elements.\<close>

definition img_max :: "nat \<Rightarrow> nat \<Rightarrow> (int \<Rightarrow> int \<Rightarrow> nat) \<Rightarrow> error + nat" where
  "img_max nr nc pix =
     (if nr = 0 \<or> nc = 0 then Inl ValueError
      else Inr (foldl max 0 (map (\<lambda>ij. pix (fst ij) (snd ij)) (ndindex nr nc))))"

text \<open>\<open>Colony.pixel_intensity\<close>.\<close>

definition pixel_intensity :: "colony \<Rightarrow> int \<Rightarrow> int \<Rightarrow> npfloat" where
  "pixel_intensity c r k =
     (let inside = (r - 1 \<ge> 0 \<and> k - 1 \<ge> 0 \<and> r + 1 < int (rows c) \<and> k + 1 < int (cols c));
          d1 = (if inside then \<bar>int (img c (r - 1) (k - 1)) - int (img c (r + 1) (k + 1))\<bar> else 0);
          d2 = (if inside then \<bar>int (img c (r - 1) (k + 1)) - int (img c (r + 1) (k - 1))\<bar> else 0);
          d3 = (if k - 1 \<ge> 0 \<and> k + 1 < int (cols c)
                then \<bar>int (img c r (k - 1)) - int (img c r (k + 1))\<bar> else 0);
          d4 = (if r - 1 \<ge> 0 \<and> r + 1 < int (rows c)
                then \<bar>int (img c (r - 1) k) - int (img c (r + 1) k)\<bar> else 0)
      in np_mul (np_div (Fin 1) (Fin (real (i_max c))))
                (Fin (real_of_int (max (max (max d1 d2) d3) d4))))"

text \<open>The body of the loop of \<open>Colony.set_pixel_intensities\<close> at one cell.\<close>

definition set_intensity :: "colony \<Rightarrow> coord \<Rightarrow> colony" where
  "set_intensity c ij =
     c\<lparr>intensities := (intensities c)(fst ij := (intensities c (fst ij))
                        (snd ij := pixel_intensity c (fst ij) (snd ij)))\<rparr>"

text \<open>The body of the loop that sets the total layer to \<open>tau_min\<close>, at one cell.\<close>

definition set_total :: "colony \<Rightarrow> coord \<Rightarrow> colony" where
  "set_total c ij =
     c\<lparr>pheromone := (pheromone c)(fst ij := (pheromone c (fst ij))
                        (snd ij := (pheromone c (fst ij) (snd ij))(m c := Fin (tau_min c))))\<rparr>"

text \<open>\<open>Colony.set_pixel_intensities\<close>, without its printing.\<close>

definition set_pixel_intensities :: "colony \<Rightarrow> colony" where
  "set_pixel_intensities c = foldl set_intensity c (ndindex (rows c) (cols c))"

text \<open>The loop that sets the total layer to \<open>tau_min\<close>.\<close>

definition init_total :: "colony \<Rightarrow> colony" where
  "init_total c = foldl set_total c (ndindex (rows c) (cols c))"

text \<open>The \<open>while (True)\<close> loop that draws the position of one ant. \<open>draws n\<close> holds the
  raw values behind the \<open>n\<close>-th pair of \<open>randrange\<close> calls. The result is \<open>None\<close> when the
  loop never ends.\<close>

partial_function (option) place_pair ::
  "nat \<Rightarrow> nat \<Rightarrow> (nat \<Rightarrow> nat \<times> nat) \<Rightarrow> coord set \<Rightarrow> nat \<Rightarrow> (error + coord \<times> nat) option" where
  "place_pair nr nc draws pairs n =
     (case randrange nr (fst (draws n)) of
        Inl e \<Rightarrow> Some (Inl e)
      | Inr x \<Rightarrow>
          (case randrange nc (snd (draws n)) of
             Inl e \<Rightarrow> Some (Inl e)
           | Inr y \<Rightarrow>
               if (x, y) \<notin> pairs then Some (Inr ((x, y), Suc n))
               else place_pair nr nc draws pairs (Suc n)))"

text \<open>The loop \<open>for ant in range(ant_count)\<close>: the ants in order of creation, the set
  \<open>pairs\<close> and the number of draws used, after \<open>k\<close> rounds.\<close>

fun place_ants ::
  "nat \<Rightarrow> nat \<Rightarrow> (nat \<Rightarrow> nat \<times> nat) \<Rightarrow> nat \<Rightarrow> (error + ant list \<times> coord set \<times> nat) option" where
  "place_ants nr nc draws 0 = Some (Inr ([], {}, 0))"
| "place_ants nr nc draws (Suc k) =
     (case place_ants nr nc draws k of
        None \<Rightarrow> None
      | Some (Inl e) \<Rightarrow> Some (Inl e)
      | Some (Inr (as, pairs, n)) \<Rightarrow>
          (case place_pair nr nc draws pairs n of
             None \<Rightarrow> None
           | Some (Inl e) \<Rightarrow> Some (Inl e)
           | Some (Inr (pair, n')) \<Rightarrow>
               Some (Inr (as @ [\<lparr>row = fst pair, col = snd pair, pos_memory = [],
                                 special = (k mod 100 = 0)\<rparr>],
                          insert pair pairs, n'))))"

text \<open>\<open>Colony.__init__\<close> on an image of shape \<open>(nr, nc)\<close>; the export of the intensities
  image is left out. \<open>np.empty\<close> and \<open>np.zeros\<close> both start from \<open>Fin 0\<close> here.\<close>

definition colony_init ::
  "(nat \<Rightarrow> nat \<times> nat) \<Rightarrow> nat \<Rightarrow> nat \<Rightarrow> (int \<Rightarrow> int \<Rightarrow> nat) \<Rightarrow> nat \<Rightarrow>
   real \<Rightarrow> nat \<Rightarrow> nat \<Rightarrow> real \<Rightarrow> real \<Rightarrow> real \<Rightarrow> real \<Rightarrow> (error + colony) option" where
  "colony_init draws nr nc pix ant_count pheromone_evaporation_constant
     pheromone_memory_constant ant_memory_constant minimum_pheromone_constant
     intensity_threshold_value al be =
     (case img_max nr nc pix of
        Inl e \<Rightarrow> Some (Inl e)
      | Inr mx \<Rightarrow>
          let c0 = \<lparr>alpha = al, beta = be, rows = nr, cols = nc, img = pix, i_max = mx,
                    intensities = (\<lambda>_ _. Fin 0), ants = [],
                    pheromone = (\<lambda>_ _ _. Fin 0), m = pheromone_memory_constant,
                    ant_mem = ant_memory_constant, tau_min = minimum_pheromone_constant,
                    p = pheromone_evaporation_constant, b = intensity_threshold_value,
                    memory_index = 0\<rparr>;
              c1 = init_total (set_pixel_intensities c0)
          in (case place_ants nr nc draws ant_count of
                None \<Rightarrow> None
              | Some (Inl e) \<Rightarrow> Some (Inl e)
              | Some (Inr (as, _, _)) \<Rightarrow> Some (Inr (c1\<lparr>ants := as\<rparr>))))"

text \<open>The coordinates of a grid, and what the placement loop has built after \<open>k\<close>
  rounds: \<open>k\<close> ants with empty memories on \<open>k\<close> different cells of the grid.\<close>

definition grid :: "nat \<Rightarrow> nat \<Rightarrow> coord set" where
  "grid nr nc = {0..<int nr} \<times> {0..<int nc}"

definition placed :: "nat \<Rightarrow> nat \<Rightarrow> nat \<Rightarrow> ant list \<Rightarrow> coord set \<Rightarrow> bool" where
  "placed nr nc k as pairs \<longleftrightarrow>
     length as = k \<and> pairs \<subseteq> grid nr nc \<and> card pairs = k
     \<and> pairs = set (map (\<lambda>a. (row a, col a)) as)
     \<and> distinct (map (\<lambda>a. (row a, col a)) as)
     \<and> (\<forall>a \<in> set as. pos_memory a = [])"

subsection \<open>Reachable states\<close>

text \<open>The states a colony goes through from \<open>c0\<close>: steps of its ants and calls of
  \<open>adjust_pheromone\<close>, in any order.\<close>

inductive reachable_from :: "colony \<Rightarrow> colony \<Rightarrow> bool" for c0 :: colony where
  start: "reachable_from c0 c0"
| step: "reachable_from c0 c \<Longrightarrow> k < length (ants c) \<Longrightarrow> ant_step k r c = Inr c'
         \<Longrightarrow> reachable_from c0 c'"
| consolidate: "reachable_from c0 c \<Longrightarrow> reachable_from c0 (adjust_pheromone c)"

text \<open>What holds in every state that a colony reaches when \<open>m\<close> is at least 1: the
  rotating index is valid; inside the grid the total layer is finite and at least
  \<open>tau_min\<close>, the memory layers are finite and no intensity is infinite; no memory of an
  ant is longer than \<open>ant_mem\<close>.\<close>

definition colony_inv :: "colony \<Rightarrow> bool" where
  "colony_inv c \<longleftrightarrow>
     memory_index c < m c
     \<and> (\<forall>i j. in_bounds c (i, j) \<longrightarrow>
           (\<exists>t. pheromone c i j (m c) = Fin t \<and> tau_min c \<le> t)
           \<and> (\<forall>k < m c. \<exists>v. pheromone c i j k = Fin v)
           \<and> intensities c i j \<noteq> PInf \<and> intensities c i j \<noteq> NInf)
     \<and> (\<forall>a \<in> set (ants c). length (pos_memory a) \<le> ant_mem c)"

text \<open>A colony without deposits: inside the grid, all memory layers are zero.\<close>

definition zero_memory :: "colony \<Rightarrow> bool" where
  "zero_memory c \<longleftrightarrow>
     (\<forall>i j k. in_bounds c (i, j) \<longrightarrow> k < m c \<longrightarrow> pheromone c i j k = Fin 0)"

text \<open>The rotating index after the first statement of \<open>adjust_pheromone\<close>.\<close>

definition next_index :: "colony \<Rightarrow> nat" where
  "next_index c = (if int (memory_index c) \<ge> int (m c) - 1 then 0 else memory_index c + 1)"

subsection \<open>Consolidation as the specification words it\<close>

text \<open>Stated from the specification, to be compared with \<open>adjust_pheromone\<close>: every cell
  gets its new total, then its memory layer at the current rotating index is zeroed,
  and finally the rotating index advances to \<open>(idx + 1) mod m\<close>.\<close>

definition consolidate_spec :: "colony \<Rightarrow> colony" where
  "consolidate_spec c =
     (foldl adjust_cell c (ndindex (rows c) (cols c)))
       \<lparr>memory_index := (memory_index c + 1) mod m c\<rparr>"

subsection \<open>A concrete colony\<close>

text \<open>An image of one row, \<open>0 0 4 0 0\<close>, with the default constants apart from two
  memory layers and a taboo capacity of two.\<close>

definition strip_img :: "int \<Rightarrow> int \<Rightarrow> nat" where
  "strip_img i j = (if i = 0 \<and> j = 2 then 4 else 0)"

definition strip :: colony where
  "strip = \<lparr>alpha = 1, beta = 1, rows = 1, cols = 5, img = strip_img, i_max = 4,
             intensities = (\<lambda>i j. if i = 0 \<and> (j = 1 \<or> j = 3) then Fin 1 else Fin 0),
             ants = [\<lparr>row = 0, col = 2, pos_memory = [], special = True\<rparr>],
             pheromone = (\<lambda>i j k. if i = 0 \<and> 0 \<le> j \<and> j < 5 \<and> k = 2 then Fin (1 / 10000)
                                  else Fin 0),
             m = 2, ant_mem = 2, tau_min = 1 / 10000, p = 1 / 10, b = 1 / 20,
             memory_index = 0\<rparr>"

text \<open>The same colony when its ant has come from \<open>(0, 1)\<close>.\<close>

definition strip_taboo :: colony where
  "strip_taboo = strip\<lparr>ants := [\<lparr>row = 0, col = 2, pos_memory = [(0, 1)], special = True\<rparr>]\<rparr>"

text \<open>The same colony after its ant has moved to \<open>(0, 1)\<close> and left pheromone there.\<close>

definition strip_fed :: colony where
  "strip_fed = strip\<lparr>ants := [\<lparr>row = 0, col = 1, pos_memory = [(0, 2)], special = True\<rparr>],
                     pheromone := (pheromone strip)(0 := (pheromone strip 0)
                                     (1 := (pheromone strip 0 1)(0 := Fin 1)))\<rparr>"

text \<open>A second image of one row, \<open>0 0 4 0 2\<close>, with the threshold \<open>3 / 4\<close>; the ant has
  come from \<open>(0, 1)\<close>.\<close>

definition dim_img :: "int \<Rightarrow> int \<Rightarrow> nat" where
  "dim_img i j = (if i = 0 \<and> j = 2 then 4 else if i = 0 \<and> j = 4 then 2 else 0)"

definition strip_dim :: colony where
  "strip_dim = strip\<lparr>img := dim_img,
                     intensities := (\<lambda>i j. if i = 0 \<and> j = 1 then Fin 1
                                          else if i = 0 \<and> j = 3 then Fin (1 / 2) else Fin 0),
                     ants := [\<lparr>row = 0, col = 2, pos_memory = [(0, 1)], special = True\<rparr>],
                     b := 3 / 4\<rparr>"

text \<open>The colony that \<open>colony_init\<close> builds over the first image with one ant, when
  the first draw is \<open>(0, 2)\<close>; and the colony it builds over an image of one row of five
  zeros.\<close>

definition strip_built :: colony where
  "strip_built =
     (init_total (set_pixel_intensities
        \<lparr>alpha = 1, beta = 1, rows = 1, cols = 5, img = strip_img, i_max = 4,
         intensities = (\<lambda>_ _. Fin 0), ants = [], pheromone = (\<lambda>_ _ _. Fin 0), m = 2,
         ant_mem = 2, tau_min = 1 / 10000, p = 1 / 10, b = 1 / 20, memory_index = 0\<rparr>))
       \<lparr>ants := [\<lparr>row = 0, col = 2, pos_memory = [], special = True\<rparr>]\<rparr>"

definition dark_built :: colony where
  "dark_built =
     (init_total (set_pixel_intensities
        \<lparr>alpha = 1, beta = 1, rows = 1, cols = 5, img = (\<lambda>_ _. 0), i_max = 0,
         intensities = (\<lambda>_ _. Fin 0), ants = [], pheromone = (\<lambda>_ _ _. Fin 0), m = 2,
         ant_mem = 2, tau_min = 1 / 10000, p = 1 / 10, b = 1 / 20, memory_index = 0\<rparr>))
       \<lparr>ants := []\<rparr>"

text \<open>A colony over an image of one row of two equal samples, with the threshold 0; its
  ant is at \<open>(0, 0)\<close>.\<close>

definition flat :: colony where
  "flat = \<lparr>alpha = 1, beta = 1, rows = 1, cols = 2, img = (\<lambda>_ _. 5), i_max = 5,
            intensities = (\<lambda>_ _. Fin 0),
            ants = [\<lparr>row = 0, col = 0, pos_memory = [], special = True\<rparr>],
            pheromone = (\<lambda>i j k. if i = 0 \<and> 0 \<le> j \<and> j < 2 \<and> k = 2 then Fin (1 / 10000)
                                 else Fin 0),
            m = 2, ant_mem = 2, tau_min = 1 / 10000, p = 1 / 10, b = 0,
            memory_index = 0\<rparr>"

text \<open>An ant at a given coordinate that has not moved yet.\<close>

definition ant_at :: "coord \<Rightarrow> ant" where
  "ant_at xy = \<lparr>row = fst xy, col = snd xy, pos_memory = [], special = False\<rparr>"

text \<open>An ant at \<open>(0, 0)\<close> with a given memory.\<close>

definition homing_ant :: "coord list \<Rightarrow> ant" where
  "homing_ant mem = \<lparr>row = 0, col = 0, pos_memory = mem, special = False\<rparr>"

text \<open>The random choices of a step that draws the coordinate \<open>(0, 2)\<close>.\<close>

definition drawn_rnd :: rnd where
  "drawn_rnd = \<lparr>order = directions, raw_row = 0, raw_col = 2\<rparr>"

text \<open>The random choices used in the examples: the directions as the class lists them,
  and the draws 0 and 0.\<close>

definition plain_rnd :: rnd where
  "plain_rnd = \<lparr>order = directions, raw_row = 0, raw_col = 0\<rparr>"

text \<open>The entry \<open>x / denominator\<close> that \<open>get_max_probability_pos\<close> computes for a
  candidate, and the order in which \<open>keys.sort(reverse=True)\<close> leaves the keys.\<close>

definition probability :: "colony \<Rightarrow> ant \<Rightarrow> coord list \<Rightarrow> coord \<Rightarrow> npfloat" where
  "probability c a ds xy =
     np_div (index_probability c xy) (py_sum (map (index_probability c) (positions_of c a ds)))"

definition descending :: "(npfloat \<times> coord) list \<Rightarrow> bool" where
  "descending es = sorted_wrt (\<lambda>e1 e2. \<not> np_lt (fst e1) (fst e2)) es"

text \<open>The colony \<open>strip\<close> with the exponent \<open>alpha = 100\<close>.\<close>

definition strip_steep :: colony where
  "strip_steep = strip\<lparr>alpha := 100\<rparr>"

text \<open>The number a finite key stands for.\<close>

definition key_of :: "entry \<Rightarrow> real" where
  "key_of e = (case fst e of Fin v \<Rightarrow> v | _ \<Rightarrow> 0)"

text \<open>A list of items all of whose keys are finite.\<close>

definition finite_keys :: "entry list \<Rightarrow> bool" where
  "finite_keys es \<longleftrightarrow> (\<forall>e \<in> set es. \<exists>u. fst e = Fin u)"

section \<open>Consolidation\<close>

lemma adjust_cell_fields:
  "alpha (adjust_cell c ij) = alpha c" "beta (adjust_cell c ij) = beta c"
  "img (adjust_cell c ij) = img c" "i_max (adjust_cell c ij) = i_max c"
  "ant_mem (adjust_cell c ij) = ant_mem c" "b (adjust_cell c ij) = b c"
  "memory_index (adjust_cell c ij) = memory_index c"
  "m (adjust_cell c ij) = m c" "p (adjust_cell c ij) = p c"
  "tau_min (adjust_cell c ij) = tau_min c"
  "rows (adjust_cell c ij) = rows c" "cols (adjust_cell c ij) = cols c"
  "ants (adjust_cell c ij) = ants c" "intensities (adjust_cell c ij) = intensities c"
  by (simp_all add: adjust_cell_def Let_def split: prod.splits)

lemma adjust_cell_pheromone:
  "pheromone (adjust_cell c (i, j)) x y k =
     (if (x, y) = (i, j) then
        (if k = memory_index c then Fin 0 else if k = m c then cell_total c i j
         else pheromone c i j k)
      else pheromone c x y k)"
  by (simp add: adjust_cell_def Let_def cell_total_def)

lemma foldl_adjust_cell_fields:
  "alpha (foldl adjust_cell c xs) = alpha c" "beta (foldl adjust_cell c xs) = beta c"
  "img (foldl adjust_cell c xs) = img c" "i_max (foldl adjust_cell c xs) = i_max c"
  "ant_mem (foldl adjust_cell c xs) = ant_mem c" "b (foldl adjust_cell c xs) = b c"
  "memory_index (foldl adjust_cell c xs) = memory_index c"
  "m (foldl adjust_cell c xs) = m c" "p (foldl adjust_cell c xs) = p c"
  "tau_min (foldl adjust_cell c xs) = tau_min c"
  "rows (foldl adjust_cell c xs) = rows c" "cols (foldl adjust_cell c xs) = cols c"
  "ants (foldl adjust_cell c xs) = ants c" "intensities (foldl adjust_cell c xs) = intensities c"
  by (induction xs arbitrary: c) (simp_all add: adjust_cell_fields)

lemma adjust_cell_other:
  "(x, y) \<noteq> ij \<Longrightarrow> pheromone (adjust_cell c ij) x y = pheromone c x y"
  by (cases ij, rule ext) (auto simp: adjust_cell_pheromone)

lemma cell_total_adjust_other:
  "(x, y) \<noteq> ij \<Longrightarrow> cell_total (adjust_cell c ij) x y = cell_total c x y"
  by (simp add: cell_total_def adjust_cell_fields adjust_cell_other)

lemma foldl_adjust_cell_pheromone:
  "distinct xs \<Longrightarrow>
   pheromone (foldl adjust_cell c xs) x y k =
     (if (x, y) \<in> set xs then
        (if k = memory_index c then Fin 0 else if k = m c then cell_total c x y
         else pheromone c x y k)
      else pheromone c x y k)"
proof (induction xs arbitrary: c)
  case Nil
  then show ?case by simp
next
  case (Cons ij xs)
  obtain i j where ij: "ij = (i, j)" by (cases ij)
  show ?case
  proof (cases "(x, y) \<in> set xs")
    case True
    then have ne: "(x, y) \<noteq> ij" using Cons.prems by auto
    with True Cons show ?thesis
      by (simp add: adjust_cell_fields cell_total_adjust_other) (simp add: ij adjust_cell_pheromone)
  next
    case False
    with Cons show ?thesis
      by (simp add: adjust_cell_fields ij adjust_cell_pheromone)
  qed
qed

lemma set_ndindex:
  "(x, y) \<in> set (ndindex nr nc) \<longleftrightarrow> 0 \<le> x \<and> x < int nr \<and> 0 \<le> y \<and> y < int nc"
proof
  assume "(x, y) \<in> set (ndindex nr nc)"
  then show "0 \<le> x \<and> x < int nr \<and> 0 \<le> y \<and> y < int nc"
    by (auto simp: ndindex_def)
next
  assume h: "0 \<le> x \<and> x < int nr \<and> 0 \<le> y \<and> y < int nc"
  from h have "nat x \<in> {0..<nr}" "x = int (nat x)" "nat y \<in> {0..<nc}" "y = int (nat y)"
    by auto
  then have "(\<exists>i\<in>{0..<nr}. x = int i) \<and> (\<exists>j\<in>{0..<nc}. y = int j)"
    by blast
  then show "(x, y) \<in> set (ndindex nr nc)"
    by (simp add: ndindex_def image_iff)
qed

lemma ndindex_Suc:
  "ndindex (Suc nr) nc = ndindex nr nc @ map (\<lambda>j. (int nr, int j)) [0..<nc]"
  by (simp add: ndindex_def)

lemma distinct_ndindex: "distinct (ndindex nr nc)"
proof (induction nr)
  case 0
  show ?case by (simp add: ndindex_def)
next
  case (Suc nr)
  have d: "distinct (map (\<lambda>j. (int nr, int j)) [0..<nc])"
    by (simp add: distinct_map inj_on_def)
  have "\<And>e. e \<in> set (ndindex nr nc) \<Longrightarrow> e \<notin> set (map (\<lambda>j. (int nr, int j)) [0..<nc])"
  proof -
    fix e assume e: "e \<in> set (ndindex nr nc)"
    obtain x y where xy: "e = (x, y)" by (cases e)
    from e xy have "x < int nr" by (simp add: set_ndindex)
    then show "e \<notin> set (map (\<lambda>j. (int nr, int j)) [0..<nc])" using xy by auto
  qed
  then have "set (ndindex nr nc) \<inter> set (map (\<lambda>j. (int nr, int j)) [0..<nc]) = {}"
    by blast
  with d Suc show ?case unfolding ndindex_Suc distinct_append by blast
qed

lemma in_bounds_ndindex: "in_bounds c (x, y) \<longleftrightarrow> (x, y) \<in> set (ndindex (rows c) (cols c))"
  by (auto simp: in_bounds_def set_ndindex)

lemma next_index_mod: "memory_index c < m c \<Longrightarrow> next_index c = (memory_index c + 1) mod m c"
proof (cases "memory_index c + 1 = m c")
  case True
  then show ?thesis by (simp add: next_index_def)
next
  case False
  assume "memory_index c < m c"
  with False have lt: "memory_index c + 1 < m c" by simp
  then have "\<not> int (memory_index c) \<ge> int (m c) - 1" by linarith
  with lt show ?thesis by (simp add: next_index_def)
qed

lemma next_index_valid: "1 \<le> m c \<Longrightarrow> next_index c < m c"
  unfolding next_index_def by (cases "int (memory_index c) \<ge> int (m c) - 1") simp_all

lemma adjust_pheromone_alt:
  "adjust_pheromone c =
     foldl adjust_cell (c\<lparr>memory_index := next_index c\<rparr>) (ndindex (rows c) (cols c))"
  by (simp add: adjust_pheromone_def next_index_def Let_def)

lemma adjust_pheromone_fields:
  "alpha (adjust_pheromone c) = alpha c" "beta (adjust_pheromone c) = beta c"
  "img (adjust_pheromone c) = img c" "i_max (adjust_pheromone c) = i_max c"
  "ant_mem (adjust_pheromone c) = ant_mem c" "b (adjust_pheromone c) = b c"
  "memory_index (adjust_pheromone c) = next_index c"
  "m (adjust_pheromone c) = m c" "p (adjust_pheromone c) = p c"
  "tau_min (adjust_pheromone c) = tau_min c"
  "rows (adjust_pheromone c) = rows c" "cols (adjust_pheromone c) = cols c"
  "ants (adjust_pheromone c) = ants c" "intensities (adjust_pheromone c) = intensities c"
  by (simp_all add: adjust_pheromone_alt foldl_adjust_cell_fields)

lemma cell_total_index [simp]: "cell_total (c\<lparr>memory_index := n\<rparr>) i j = cell_total c i j"
  by (simp add: cell_total_def)

lemma adjust_pheromone_pheromone:
  "pheromone (adjust_pheromone c) x y k =
     (if in_bounds c (x, y) then
        (if k = next_index c then Fin 0 else if k = m c then cell_total c x y
         else pheromone c x y k)
      else pheromone c x y k)"
  by (simp add: adjust_pheromone_alt foldl_adjust_cell_pheromone distinct_ndindex in_bounds_ndindex)

lemma adjust_pheromone_record:
  "adjust_pheromone c = c\<lparr>memory_index := next_index c, pheromone := pheromone (adjust_pheromone c)\<rparr>"
  by (rule colony.equality) (simp_all add: adjust_pheromone_fields)

lemma consolidate_spec_pheromone:
  "pheromone (consolidate_spec c) x y k =
     (if in_bounds c (x, y) then
        (if k = memory_index c then Fin 0 else if k = m c then cell_total c x y
         else pheromone c x y k)
      else pheromone c x y k)"
  by (simp add: consolidate_spec_def foldl_adjust_cell_pheromone distinct_ndindex in_bounds_ndindex)

lemma adjust_pheromone_single_layer:
  assumes "m c = 1" and "memory_index c < m c"
  shows "adjust_pheromone c = consolidate_spec c"
proof -
  from assms have i: "memory_index c = 0" by simp
  then have n: "next_index c = 0" using assms(1) by (simp add: next_index_def)
  have "c\<lparr>memory_index := next_index c\<rparr> = c" by (simp add: n i [symmetric])
  then have a: "adjust_pheromone c = foldl adjust_cell c (ndindex (rows c) (cols c))"
    by (simp add: adjust_pheromone_alt)
  have "memory_index (foldl adjust_cell c (ndindex (rows c) (cols c))) = 0"
    by (simp add: foldl_adjust_cell_fields i)
  then have "(foldl adjust_cell c (ndindex (rows c) (cols c)))\<lparr>memory_index := 0\<rparr>
      = foldl adjust_cell c (ndindex (rows c) (cols c))"
    by (metis colony.surjective colony.update_convs(15))
  then show ?thesis by (simp add: a consolidate_spec_def assms(1) i)
qed

text \<open>
  C1, as amended. \<open>adjust_pheromone\<close> runs once in every iteration, after the steps of
  all ants. It advances the rotating index to \<open>(idx + 1) mod m\<close> first; then every cell
  inside the grid gets the total \<open>max((1 - p) * oldTotal + sum of its m memory layers,
  tau_min)\<close>, and its memory layer at the new index is zeroed. The other memory layers,
  the cells outside the grid and the other fields of the colony stay as they are.
\<close>

theorem adjust_pheromone_effect:
  assumes "memory_index c < m c"
  shows "memory_index (adjust_pheromone c) = (memory_index c + 1) mod m c
    \<and> (\<forall>x y k. pheromone (adjust_pheromone c) x y k =
         (if in_bounds c (x, y) then
            (if k = (memory_index c + 1) mod m c then Fin 0
             else if k = m c then
               py_max (np_add (np_mul (Fin (1 - p c)) (pheromone c x y (m c)))
                              (py_sum (map (pheromone c x y) [0..<m c])))
                      (Fin (tau_min c))
             else pheromone c x y k)
          else pheromone c x y k))
    \<and> adjust_pheromone c = c\<lparr>memory_index := (memory_index c + 1) mod m c,
                               pheromone := pheromone (adjust_pheromone c)\<rparr>
    \<and> (\<forall>r. iteration r c =
          (case step_ants r [0..<length (ants c)] c of
             Inl e \<Rightarrow> Inl e
           | Inr c' \<Rightarrow> Inr (adjust_pheromone c')))"
proof -
  have idx: "next_index c = (memory_index c + 1) mod m c"
    using assms by (rule next_index_mod)
  have 1: "memory_index (adjust_pheromone c) = (memory_index c + 1) mod m c"
    by (simp add: adjust_pheromone_fields idx)
  have 2: "\<forall>x y k. pheromone (adjust_pheromone c) x y k =
         (if in_bounds c (x, y) then
            (if k = (memory_index c + 1) mod m c then Fin 0
             else if k = m c then
               py_max (np_add (np_mul (Fin (1 - p c)) (pheromone c x y (m c)))
                              (py_sum (map (pheromone c x y) [0..<m c])))
                      (Fin (tau_min c))
             else pheromone c x y k)
          else pheromone c x y k)"
    by (simp add: adjust_pheromone_pheromone idx cell_total_def)
  have 3: "adjust_pheromone c = c\<lparr>memory_index := (memory_index c + 1) mod m c,
                               pheromone := pheromone (adjust_pheromone c)\<rparr>"
    using adjust_pheromone_record [of c] by (simp add: idx)
  have 4: "\<forall>r. iteration r c =
          (case step_ants r [0..<length (ants c)] c of
             Inl e \<Rightarrow> Inl e
           | Inr c' \<Rightarrow> Inr (adjust_pheromone c'))"
    by (simp add: iteration_def)
  from 1 2 3 4 show ?thesis by blast
qed

lemma in_bounds_strip_fed: "in_bounds strip_fed (0, 1)"
  by (simp add: in_bounds_def strip_fed_def strip_def)

theorem adjust_pheromone_effect_witness:
  "memory_index strip_fed < m strip_fed
   \<and> memory_index (adjust_pheromone strip_fed) = 1
   \<and> pheromone (adjust_pheromone strip_fed) 0 1 2 = Fin (100009 / 100000)
   \<and> pheromone (adjust_pheromone strip_fed) 0 1 0 = Fin 1
   \<and> pheromone (adjust_pheromone strip_fed) 0 1 1 = Fin 0"
proof -
  have h: "memory_index strip_fed < m strip_fed"
    by (simp add: strip_fed_def strip_def)
  have e: "[0..<2] = [0, Suc 0]" by (simp add: upt_rec)
  show ?thesis
    using h adjust_pheromone_effect [OF h] in_bounds_strip_fed
    by (simp add: strip_fed_def strip_def py_sum_def py_max_def e)
qed

text \<open>
  C1 as the specification words it zeroes the layer at the index the ants have just
  written to, and advances the index afterwards. With a single memory layer the two
  indices are the same and the code does what the claim says; with more layers it does
  not. In \<open>strip_fed\<close>, which has two, the deposit at \<open>(0, 1)\<close> in layer 0 outlives
  \<open>adjust_pheromone\<close>, which zeroes layer 1.
\<close>

theorem consolidation_zeroes_next_layer_counterexample:
  "pheromone (adjust_pheromone strip_fed) 0 1 (memory_index strip_fed) = Fin 1
   \<and> pheromone (consolidate_spec strip_fed) 0 1 (memory_index strip_fed) = Fin 0
   \<and> adjust_pheromone strip_fed \<noteq> consolidate_spec strip_fed"
proof -
  have a: "pheromone (adjust_pheromone strip_fed) 0 1 (memory_index strip_fed) = Fin 1"
    using in_bounds_strip_fed
    by (simp add: adjust_pheromone_pheromone next_index_def) (simp add: strip_fed_def strip_def)
  have s: "pheromone (consolidate_spec strip_fed) 0 1 (memory_index strip_fed) = Fin 0"
    using in_bounds_strip_fed by (simp add: consolidate_spec_pheromone)
  from a s have "adjust_pheromone strip_fed \<noteq> consolidate_spec strip_fed"
    by (metis npfloat.inject zero_neq_one)
  with a s show ?thesis by blast
qed

section \<open>The step of an ant\<close>

lemma update_memory_fields:
  "row (update_memory c a) = row a" "col (update_memory c a) = col a"
  "special (update_memory c a) = special a"
  by (simp_all add: update_memory_def Let_def)

lemma update_memory_length:
  "length (pos_memory a) \<le> ant_mem c \<Longrightarrow> length (pos_memory (update_memory c a)) \<le> ant_mem c"
  by (auto simp: update_memory_def Let_def)

lemma update_memory_distinct:
  "distinct (pos_memory a) \<Longrightarrow> distinct (pos_memory (update_memory c a))"
  by (auto simp: update_memory_def Let_def distinct_tl)

lemma positions_of_in_bounds: "xy \<in> set (positions_of c a ds) \<Longrightarrow> in_bounds c xy"
  by (simp add: positions_of_def)

lemma in_bounds_rows_cols: "in_bounds c xy \<Longrightarrow> 0 < rows c \<and> 0 < cols c"
  by (cases xy) (auto simp: in_bounds_def)

lemma dict_set_values: "snd ` set (dict_set d k v) \<subseteq> insert v (snd ` set d)"
  by (induction d k v rule: dict_set.induct) auto

lemma foldl_dict_set_values:
  "snd ` set (foldl (\<lambda>d kv. dict_set d (fst kv) (snd kv)) d kvs) \<subseteq> snd ` set d \<union> snd ` set kvs"
proof (induction kvs arbitrary: d)
  case Nil
  show ?case by simp
next
  case (Cons kv kvs)
  have "snd ` set (foldl (\<lambda>d kv. dict_set d (fst kv) (snd kv)) (dict_set d (fst kv) (snd kv)) kvs)
          \<subseteq> snd ` set (dict_set d (fst kv) (snd kv)) \<union> snd ` set kvs"
    by (rule Cons.IH)
  also have "\<dots> \<subseteq> insert (snd kv) (snd ` set d) \<union> snd ` set kvs"
    using dict_set_values [of d "fst kv" "snd kv"] by blast
  finally show ?case by auto
qed

lemma dict_zip_values: "snd ` set (dict_zip ks vs) \<subseteq> set vs"
proof -
  have "snd ` set (dict_zip ks vs) \<subseteq> snd ` set (zip ks vs)"
    unfolding dict_zip_def using foldl_dict_set_values [of "[]" "zip ks vs"] by simp
  also have "\<dots> \<subseteq> set vs"
    by (auto dest: set_zip_rightD)
  finally show ?thesis .
qed

lemma set_binary_insert: "set (binary_insert pre pivot) = insert pivot (set pre)"
proof -
  have "set (take l pre) \<union> set (drop l pre) = set pre" for l
    by (metis append_take_drop_id set_append)
  then show ?thesis by (simp add: binary_insert_def Let_def)
qed

lemma set_binarysort: "set (binarysort run rest) = set run \<union> set rest"
  unfolding binarysort_def by (induction rest arbitrary: run) (auto simp: set_binary_insert)

lemma set_sort_reverse: "set (sort_reverse es) = set es"
proof (cases "length es < 2")
  case True
  then show ?thesis by (simp add: sort_reverse_def)
next
  case False
  obtain n desc where c: "count_run (rev es) = (n, desc)" by (cases "count_run (rev es)")
  have "set (take n (rev es)) \<union> set (drop n (rev es)) = set (rev es)"
    by (metis append_take_drop_id set_append)
  then show ?thesis using False by (simp add: sort_reverse_def c set_binarysort Let_def)
qed

lemma ant_max_Some:
  assumes "ant_max a d = Some xy"
  shows "xy \<in> snd ` set d \<and> xy \<notin> set (pos_memory a)"
proof -
  from assms obtain e es where
    f: "filter (\<lambda>e. snd e \<notin> set (pos_memory a)) (sort_reverse d) = e # es" and xy: "xy = snd e"
    by (auto simp: ant_max_def split: list.splits)
  have "e \<in> set (filter (\<lambda>e. snd e \<notin> set (pos_memory a)) (sort_reverse d))"
    by (simp add: f)
  then have "e \<in> set d" "snd e \<notin> set (pos_memory a)"
    by (simp_all add: set_sort_reverse)
  with xy show ?thesis by blast
qed

lemma get_max_probability_pos_Some:
  assumes "get_max_probability_pos c a ds = Some xy"
  shows "xy \<in> set (positions_of c a ds) \<and> xy \<notin> set (pos_memory a)"
proof -
  let ?ps = "positions_of c a ds"
  let ?ns = "map (index_probability c) ?ps"
  from assms have "ant_max a (dict_zip (map (\<lambda>x. np_div x (py_sum ?ns)) ?ns) ?ps) = Some xy"
    by (simp add: get_max_probability_pos_def get_index_probabilities_def Let_def)
  from ant_max_Some [OF this] dict_zip_values show ?thesis by blast
qed

lemma relocate_ok:
  "0 < rows c \<Longrightarrow> 0 < cols c \<Longrightarrow>
   relocate c r a = Inr (a\<lparr>row := int (raw_row r mod rows c), col := int (raw_col r mod cols c)\<rparr>)"
  by (simp add: relocate_def randrange_def)

lemma relocate_Inr:
  "relocate c r a = Inr a' \<Longrightarrow>
   a' = a\<lparr>row := int (raw_row r mod rows c), col := int (raw_col r mod cols c)\<rparr>"
  by (auto simp: relocate_def randrange_def split: if_splits)

lemma np_lt_not_ge: "np_lt x y \<Longrightarrow> \<not> np_ge x y"
  by (cases x; cases y) auto

lemma deposit_pheromone_None:
  "get_max_probability_pos c (update_memory c a) (order r) = None \<Longrightarrow>
   deposit_pheromone r c a =
     (case relocate c r (update_memory c a) of Inl e \<Rightarrow> Inl e | Inr a' \<Rightarrow> Inr (a', pheromone c))"
  by (simp add: deposit_pheromone_def Let_def)

lemma deposit_pheromone_move:
  "get_max_probability_pos c (update_memory c a) (order r) = Some (x, y) \<Longrightarrow>
   np_ge (intensities c x y) (Fin (b c)) \<Longrightarrow>
   deposit_pheromone r c a =
     Inr ((update_memory c a)\<lparr>row := x, col := y\<rparr>,
          (pheromone c)(x := (pheromone c x)(y := (pheromone c x y)
             (memory_index c := intensities c x y))))"
  by (simp add: deposit_pheromone_def Let_def)

lemma deposit_pheromone_below:
  "get_max_probability_pos c (update_memory c a) (order r) = Some (x, y) \<Longrightarrow>
   \<not> np_ge (intensities c x y) (Fin (b c)) \<Longrightarrow>
   deposit_pheromone r c a =
     (case relocate c r (update_memory c a) of Inl e \<Rightarrow> Inl e | Inr a' \<Rightarrow> Inr (a', pheromone c))"
  by (simp add: deposit_pheromone_def Let_def)

text \<open>
  C6. When the selection returns a candidate, the candidate is inside the grid and
  outside the ant's memory. If its intensity is at least \<open>b\<close>, the ant moves there and
  the memory layer at the current rotating index of that cell is overwritten with the
  cell's intensity. If its intensity is below \<open>b\<close>, the ant goes to the coordinate that
  \<open>randrange\<close> draws instead, and the pheromone array is left as it is.
\<close>

theorem deposit_pheromone_threshold:
  assumes "get_max_probability_pos c (update_memory c a) (order r) = Some (x, y)"
  shows "in_bounds c (x, y) \<and> (x, y) \<notin> set (pos_memory (update_memory c a))
    \<and> (np_ge (intensities c x y) (Fin (b c)) \<longrightarrow>
         deposit_pheromone r c a =
           Inr ((update_memory c a)\<lparr>row := x, col := y\<rparr>,
                (pheromone c)(x := (pheromone c x)(y := (pheromone c x y)
                   (memory_index c := intensities c x y)))))
    \<and> (np_lt (intensities c x y) (Fin (b c)) \<longrightarrow>
         deposit_pheromone r c a =
           Inr ((update_memory c a)\<lparr>row := int (raw_row r mod rows c),
                                      col := int (raw_col r mod cols c)\<rparr>,
                pheromone c))"
proof -
  from get_max_probability_pos_Some [OF assms]
  have cand: "in_bounds c (x, y)" and fresh: "(x, y) \<notin> set (pos_memory (update_memory c a))"
    by (auto dest: positions_of_in_bounds)
  from cand have pos: "0 < rows c" "0 < cols c"
    using in_bounds_rows_cols by blast+
  have move: "np_ge (intensities c x y) (Fin (b c)) \<longrightarrow>
         deposit_pheromone r c a =
           Inr ((update_memory c a)\<lparr>row := x, col := y\<rparr>,
                (pheromone c)(x := (pheromone c x)(y := (pheromone c x y)
                   (memory_index c := intensities c x y))))"
    using deposit_pheromone_move [OF assms] by blast
  have below: "np_lt (intensities c x y) (Fin (b c)) \<longrightarrow>
         deposit_pheromone r c a =
           Inr ((update_memory c a)\<lparr>row := int (raw_row r mod rows c),
                                      col := int (raw_col r mod cols c)\<rparr>,
                pheromone c)"
    using deposit_pheromone_below [OF assms] np_lt_not_ge relocate_ok [OF pos]
    by (simp add: np_lt_not_ge)
  from cand fresh move below show ?thesis by blast
qed

lemma bisect_stop: "\<not> l < r \<Longrightarrow> bisect pivot pre l r = l"
  by (simp add: bisect.simps)

lemma bisect_left:
  "l < r \<Longrightarrow> key_lt pivot (pre ! (l + (r - l) div 2)) \<Longrightarrow>
   bisect pivot pre l r = bisect pivot pre l (l + (r - l) div 2)"
  by (subst bisect.simps) simp

lemma bisect_right:
  "l < r \<Longrightarrow> \<not> key_lt pivot (pre ! (l + (r - l) div 2)) \<Longrightarrow>
   bisect pivot pre l r = bisect pivot pre (Suc (l + (r - l) div 2)) r"
  by (subst bisect.simps) simp

lemma float64_range_unit: "1 / 10000 \<le> z \<Longrightarrow> z \<le> 1 \<Longrightarrow> float64_range z = Fin z"
proof -
  assume z: "1 / 10000 \<le> z" "z \<le> 1"
  have "(1::real) < 2 ^ 1024 - 2 ^ 970" by simp
  moreover have "(1::real) / 2 ^ 1075 < 1 / 10000" by simp
  ultimately show ?thesis using z by (simp add: float64_range_def)
qed

lemmas selection_defs =
  get_max_probability_pos_def update_memory_def directions_def
  get_index_probabilities_def positions_of_def in_bounds_def
  index_probability_def py_sum_def dict_zip_def ant_max_def sort_reverse_def
  key_lt_def binarysort_def binary_insert_def bisect_stop bisect_left bisect_right
  float64_range_unit

theorem deposit_pheromone_threshold_witness:
  "get_max_probability_pos strip (update_memory strip (ants strip ! 0)) (order plain_rnd)
     = Some (0, 1)
   \<and> np_ge (intensities strip 0 1) (Fin (b strip))
   \<and> deposit_pheromone plain_rnd strip (ants strip ! 0) =
       Inr (\<lparr>row = 0, col = 1, pos_memory = [(0, 2)], special = True\<rparr>,
            (pheromone strip)(0 := (pheromone strip 0)(1 := (pheromone strip 0 1)(0 := Fin 1))))
   \<and> get_max_probability_pos strip_dim (update_memory strip_dim (ants strip_dim ! 0))
       (order plain_rnd) = Some (0, 3)
   \<and> np_lt (intensities strip_dim 0 3) (Fin (b strip_dim))
   \<and> deposit_pheromone plain_rnd strip_dim (ants strip_dim ! 0) =
       Inr (\<lparr>row = 0, col = 0, pos_memory = [(0, 1), (0, 2)], special = True\<rparr>,
            pheromone strip_dim)"
proof -
  have h1: "get_max_probability_pos strip (update_memory strip (ants strip ! 0)) (order plain_rnd)
     = Some (0, 1)"
    by (simp add: selection_defs strip_def plain_rnd_def)
  have h2: "get_max_probability_pos strip_dim (update_memory strip_dim (ants strip_dim ! 0))
       (order plain_rnd) = Some (0, 3)"
    by (simp add: selection_defs strip_dim_def strip_def plain_rnd_def)
  have g1: "np_ge (intensities strip 0 1) (Fin (b strip))"
    by (simp add: strip_def)
  have g2: "np_lt (intensities strip_dim 0 3) (Fin (b strip_dim))"
    by (simp add: strip_dim_def strip_def)
  from deposit_pheromone_threshold [OF h1] g1
  have d1: "deposit_pheromone plain_rnd strip (ants strip ! 0) =
       Inr (\<lparr>row = 0, col = 1, pos_memory = [(0, 2)], special = True\<rparr>,
            (pheromone strip)(0 := (pheromone strip 0)(1 := (pheromone strip 0 1)(0 := Fin 1))))"
    by (simp add: strip_def update_memory_def)
  from deposit_pheromone_threshold [OF h2] g2
  have d2: "deposit_pheromone plain_rnd strip_dim (ants strip_dim ! 0) =
       Inr (\<lparr>row = 0, col = 0, pos_memory = [(0, 1), (0, 2)], special = True\<rparr>,
            pheromone strip_dim)"
    by (simp add: strip_dim_def strip_def update_memory_def plain_rnd_def)
  from h1 h2 g1 g2 d1 d2 show ?thesis by blast
qed

lemma deposit_pheromone_Inr:
  assumes "deposit_pheromone r c a = Inr (a', ph)"
  shows "pos_memory a' = pos_memory (update_memory c a) \<and> special a' = special a
    \<and> (ph = pheromone c
        \<or> (\<exists>x y. in_bounds c (x, y) \<and> np_ge (intensities c x y) (Fin (b c))
             \<and> ph = (pheromone c)(x := (pheromone c x)(y := (pheromone c x y)
                        (memory_index c := intensities c x y)))))"
proof (cases "get_max_probability_pos c (update_memory c a) (order r)")
  case None
  with assms obtain a1 where "relocate c r (update_memory c a) = Inr a1" "a' = a1" "ph = pheromone c"
    by (auto simp: deposit_pheromone_None split: sum.splits)
  then show ?thesis
    by (auto dest!: relocate_Inr simp: update_memory_fields)
next
  case (Some xy)
  obtain x y where xy: "xy = (x, y)" by (cases xy)
  from Some xy have sel: "get_max_probability_pos c (update_memory c a) (order r) = Some (x, y)"
    by simp
  from get_max_probability_pos_Some [OF sel] have cand: "in_bounds c (x, y)"
    by (auto dest: positions_of_in_bounds)
  show ?thesis
  proof (cases "np_ge (intensities c x y) (Fin (b c))")
    case True
    from assms deposit_pheromone_move [OF sel True]
    have "a' = (update_memory c a)\<lparr>row := x, col := y\<rparr>"
      "ph = (pheromone c)(x := (pheromone c x)(y := (pheromone c x y)
                        (memory_index c := intensities c x y)))"
      by simp_all
    with cand True show ?thesis
      by (auto simp: update_memory_fields)
  next
    case False
    from assms deposit_pheromone_below [OF sel False]
    obtain a1 where "relocate c r (update_memory c a) = Inr a1" "a' = a1" "ph = pheromone c"
      by (auto split: sum.splits)
    then show ?thesis
      by (auto dest!: relocate_Inr simp: update_memory_fields)
  qed
qed

lemma ant_step_Inr:
  assumes "ant_step k r c = Inr c'"
  obtains a' ph where "deposit_pheromone r c (ants c ! k) = Inr (a', ph)"
    and "c' = c\<lparr>ants := (ants c)[k := a'], pheromone := ph\<rparr>"
  using assms by (auto simp: ant_step_def split: sum.splits)

text \<open>
  C9. A step of ant \<open>k\<close> that returns changes the colony in two fields only: the entry
  \<open>k\<close> of the list of ants, and the pheromone array. The image, the intensities and
  the constants are as before, the other ants are as before, the ant keeps its
  \<open>special\<close> flag, the total layer is as before, and all cells of the pheromone array
  but at most one cell of a memory layer are as before. The rotating index is taken to
  be valid, as it is in every state the colony reaches when \<open>m\<close> is at least 1.
\<close>

theorem ant_step_frame:
  assumes "ant_step k r c = Inr c'" and "k < length (ants c)" and "memory_index c < m c"
  shows "(\<exists>a' ph. c' = c\<lparr>ants := (ants c)[k := a'], pheromone := ph\<rparr>)
    \<and> intensities c' = intensities c \<and> img c' = img c
    \<and> length (ants c') = length (ants c)
    \<and> (\<forall>n. n \<noteq> k \<longrightarrow> ants c' ! n = ants c ! n)
    \<and> special (ants c' ! k) = special (ants c ! k)
    \<and> (\<forall>i j. pheromone c' i j (m c) = pheromone c i j (m c))
    \<and> (\<exists>x y l. l < m c \<and>
          (\<forall>i j n. (i, j, n) \<noteq> (x, y, l) \<longrightarrow> pheromone c' i j n = pheromone c i j n))"
proof -
  from assms(1) obtain a' ph where
    d: "deposit_pheromone r c (ants c ! k) = Inr (a', ph)" and
    c': "c' = c\<lparr>ants := (ants c)[k := a'], pheromone := ph\<rparr>"
    by (rule ant_step_Inr)
  from deposit_pheromone_Inr [OF d]
  have sp: "special a' = special (ants c ! k)"
    and ph: "ph = pheromone c
        \<or> (\<exists>x y. ph = (pheromone c)(x := (pheromone c x)(y := (pheromone c x y)
                        (memory_index c := intensities c x y))))"
    by blast+
  have 1: "\<exists>a' ph. c' = c\<lparr>ants := (ants c)[k := a'], pheromone := ph\<rparr>"
    using c' by blast
  have 2: "intensities c' = intensities c \<and> img c' = img c
     \<and> length (ants c') = length (ants c)"
    by (simp add: c')
  have 3: "\<forall>n. n \<noteq> k \<longrightarrow> ants c' ! n = ants c ! n"
    by (simp add: c')
  have 4: "special (ants c' ! k) = special (ants c ! k)"
    using assms(2) sp by (simp add: c')
  have 5: "\<forall>i j. pheromone c' i j (m c) = pheromone c i j (m c)"
    using ph assms(3) by (auto simp: c')
  have 6: "\<exists>x y l. l < m c \<and>
          (\<forall>i j n. (i, j, n) \<noteq> (x, y, l) \<longrightarrow> pheromone c' i j n = pheromone c i j n)"
  proof -
    have "\<exists>x y. \<forall>i j n. (i, j, n) \<noteq> (x, y, memory_index c) \<longrightarrow> ph i j n = pheromone c i j n"
      using ph
    proof
      assume "ph = pheromone c"
      then show ?thesis by simp
    next
      assume "\<exists>x y. ph = (pheromone c)(x := (pheromone c x)(y := (pheromone c x y)
                        (memory_index c := intensities c x y)))"
      then obtain x y where e: "ph = (pheromone c)(x := (pheromone c x)(y := (pheromone c x y)
                        (memory_index c := intensities c x y)))"
        by blast
      have "\<forall>i j n. (i, j, n) \<noteq> (x, y, memory_index c) \<longrightarrow> ph i j n = pheromone c i j n"
        by (simp add: e)
      then show ?thesis by blast
    qed
    with assms(3) show ?thesis by (auto simp: c')
  qed
  from 1 2 3 4 5 6 show ?thesis by blast
qed

lemma strip_selection:
  "get_max_probability_pos strip (update_memory strip (ants strip ! 0)) (order plain_rnd)
     = Some (0, 1)"
  by (simp add: selection_defs strip_def plain_rnd_def)

lemma strip_deposit:
  "deposit_pheromone plain_rnd strip (ants strip ! 0) =
     Inr (\<lparr>row = 0, col = 1, pos_memory = [(0, 2)], special = True\<rparr>,
          (pheromone strip)(0 := (pheromone strip 0)(1 := (pheromone strip 0 1)(0 := Fin 1))))"
proof -
  have g: "np_ge (intensities strip 0 1) (Fin (b strip))"
    by (simp add: strip_def)
  show ?thesis
    using deposit_pheromone_move [OF strip_selection g]
    by (simp add: strip_def update_memory_def)
qed

lemma strip_step:
  "ant_step 0 plain_rnd strip =
     Inr (strip\<lparr>ants := [\<lparr>row = 0, col = 1, pos_memory = [(0, 2)], special = True\<rparr>],
                pheromone := (pheromone strip)(0 := (pheromone strip 0)
                                (1 := (pheromone strip 0 1)(0 := Fin 1)))\<rparr>)"
  unfolding ant_step_def strip_deposit by (simp add: strip_def)

theorem ant_step_frame_witness:
  "ant_step 0 plain_rnd strip =
     Inr (strip\<lparr>ants := [\<lparr>row = 0, col = 1, pos_memory = [(0, 2)], special = True\<rparr>],
                pheromone := (pheromone strip)(0 := (pheromone strip 0)
                                (1 := (pheromone strip 0 1)(0 := Fin 1)))\<rparr>)
   \<and> 0 < length (ants strip) \<and> memory_index strip < m strip
   \<and> (\<forall>i j. ((pheromone strip)(0 := (pheromone strip 0)
                 (1 := (pheromone strip 0 1)(0 := Fin 1)))) i j (m strip)
             = pheromone strip i j (m strip))"
proof -
  have k: "0 < length (ants strip)" and i: "memory_index strip < m strip"
    by (simp_all add: strip_def)
  from ant_step_frame [OF strip_step k i]
  have "\<forall>i j. ((pheromone strip)(0 := (pheromone strip 0)
                 (1 := (pheromone strip 0 1)(0 := Fin 1)))) i j (m strip)
             = pheromone strip i j (m strip)"
    by simp
  with strip_step k i show ?thesis by blast
qed

section \<open>The taboo memory\<close>

lemma visit_length:
  "length (pos_memory a) \<le> ant_mem c \<Longrightarrow> length (pos_memory (visit c a xy)) \<le> ant_mem c"
  unfolding visit_def by (rule update_memory_length) simp

lemma visits_snoc: "visits c a (vs @ [v]) = visit c (visits c a vs) v"
  by (simp add: visits_def)

lemma visits_length:
  "length (pos_memory a) \<le> ant_mem c \<Longrightarrow> length (pos_memory (visits c a vs)) \<le> ant_mem c"
  by (induction vs rule: rev_induct) (simp_all add: visits_def visit_length)

lemma visit_distinct: "distinct (pos_memory a) \<Longrightarrow> distinct (pos_memory (visit c a xy))"
  unfolding visit_def by (rule update_memory_distinct) simp

lemma visits_distinct: "distinct (pos_memory a) \<Longrightarrow> distinct (pos_memory (visits c a vs))"
  by (induction vs rule: rev_induct) (simp_all add: visits_def visit_distinct)

lemma visit_memory:
  "pos_memory (visit c a v) =
     (let mem = (if v \<in> set (pos_memory a) then pos_memory a else pos_memory a @ [v])
      in if length mem > ant_mem c then tl mem else mem)"
  by (cases v) (simp add: visit_def update_memory_def Let_def)

text \<open>While the oldest entry stays in the memory, nothing is evicted.\<close>

lemma visit_keeps_head:
  assumes "pos_memory a \<noteq> []" and "distinct (pos_memory a)"
    and "length (pos_memory a) \<le> ant_mem c"
    and "hd (pos_memory a) \<in> set (pos_memory (visit c a v))"
  shows "pos_memory (visit c a v) \<noteq> [] \<and> hd (pos_memory (visit c a v)) = hd (pos_memory a)
    \<and> set (pos_memory (visit c a v)) = insert v (set (pos_memory a))"
proof (cases "v \<in> set (pos_memory a)")
  case True
  with assms(1,3) show ?thesis by (auto simp: visit_memory Let_def)
next
  case False
  show ?thesis
  proof (cases "length (pos_memory a @ [v]) > ant_mem c")
    case True
    with False have mem: "pos_memory (visit c a v) = tl (pos_memory a @ [v])"
      by (simp add: visit_memory Let_def)
    from assms(1) obtain x xs where xs: "pos_memory a = x # xs" by (cases "pos_memory a") auto
    with mem have "pos_memory (visit c a v) = xs @ [v]" by simp
    moreover from xs assms(2) False have "x \<notin> set (xs @ [v])" by auto
    ultimately have "hd (pos_memory a) \<notin> set (pos_memory (visit c a v))" using xs by simp
    with assms(4) show ?thesis by simp
  next
    case F2: False
    with False have mem: "pos_memory (visit c a v) = pos_memory a @ [v]"
      by (simp add: visit_memory Let_def)
    with assms(1) show ?thesis by auto
  qed
qed

lemma visit_subset: "set (pos_memory (visit c a v)) \<subseteq> insert v (set (pos_memory a))"
proof -
  have t: "\<And>xs :: coord list. set (tl xs) \<subseteq> set xs"
  proof -
    fix xs :: "coord list" show "set (tl xs) \<subseteq> set xs" by (cases xs) auto
  qed
  show ?thesis
    using t [of "pos_memory a"] t [of "pos_memory a @ [v]"]
    by (auto simp: visit_memory Let_def)
qed

lemma visits_keep_head:
  assumes "pos_memory a \<noteq> []" and "distinct (pos_memory a)"
    and "length (pos_memory a) \<le> ant_mem c"
  shows "hd (pos_memory a) \<notin> set vs \<Longrightarrow>
    hd (pos_memory a) \<in> set (pos_memory (visits c a vs)) \<Longrightarrow>
    pos_memory (visits c a vs) \<noteq> [] \<and> hd (pos_memory (visits c a vs)) = hd (pos_memory a)
    \<and> set (pos_memory (visits c a vs)) = set vs \<union> set (pos_memory a)"
proof (induction vs rule: rev_induct)
  case Nil
  with assms(1) show ?case by (simp add: visits_def)
next
  case (snoc v vs)
  let ?b = "visits c a vs"
  from snoc.prems have ne: "hd (pos_memory a) \<noteq> v" and nin: "hd (pos_memory a) \<notin> set vs"
    by auto
  have after: "hd (pos_memory a) \<in> set (pos_memory (visit c ?b v))"
    using snoc.prems by (simp add: visits_snoc)
  with visit_subset [of c ?b v] ne have inb: "hd (pos_memory a) \<in> set (pos_memory ?b)"
    by auto
  from snoc.IH [OF nin inb]
  have b1: "pos_memory ?b \<noteq> []" and b2: "hd (pos_memory ?b) = hd (pos_memory a)"
    and b3: "set (pos_memory ?b) = set vs \<union> set (pos_memory a)"
    by blast+
  have b4: "distinct (pos_memory ?b)" using assms(2) by (rule visits_distinct)
  have b5: "length (pos_memory ?b) \<le> ant_mem c" using assms(3) by (rule visits_length)
  from after b2 have b6: "hd (pos_memory ?b) \<in> set (pos_memory (visit c ?b v))" by simp
  from visit_keeps_head [OF b1 b4 b5 b6] b2 b3
  show ?case by (auto simp: visits_snoc)
qed

text \<open>
  C7, as amended. When the memory of an ant holds at most \<open>ant_mem\<close> coordinates, it
  still does after \<open>update_memory\<close>, after a step of the ant, and after any sequence of
  recorded visits. After \<open>ant_mem + 1\<close> recorded visits to pairwise distinct
  coordinates, all different from the oldest coordinate in the memory, that oldest
  coordinate is no longer in the memory, so that \<open>Ant.max\<close> accepts it again.
\<close>

theorem taboo_memory_bounded_and_evicting:
  assumes "length (pos_memory a) \<le> ant_mem c"
  shows "length (pos_memory (update_memory c a)) \<le> ant_mem c
    \<and> (\<forall>r a' ph. deposit_pheromone r c a = Inr (a', ph) \<longrightarrow> length (pos_memory a') \<le> ant_mem c)
    \<and> length (pos_memory (visits c a vs)) \<le> ant_mem c
    \<and> (pos_memory a \<noteq> [] \<and> distinct (pos_memory a) \<and> distinct vs
         \<and> hd (pos_memory a) \<notin> set vs \<and> length vs = ant_mem c + 1
       \<longrightarrow> hd (pos_memory a) \<notin> set (pos_memory (visits c a vs)))"
proof -
  have 1: "length (pos_memory (update_memory c a)) \<le> ant_mem c"
    using assms by (rule update_memory_length)
  have 2: "length (pos_memory (visits c a vs)) \<le> ant_mem c"
    using assms by (rule visits_length)
  have 3: "hd (pos_memory a) \<notin> set (pos_memory (visits c a vs))"
    if h: "pos_memory a \<noteq> []" "distinct (pos_memory a)" "distinct vs"
      "hd (pos_memory a) \<notin> set vs" "length vs = ant_mem c + 1"
  proof
    assume "hd (pos_memory a) \<in> set (pos_memory (visits c a vs))"
    from visits_keep_head [OF h(1) h(2) assms h(4) this]
    have "set vs \<subseteq> set (pos_memory (visits c a vs))" by blast
    then have "card (set vs) \<le> card (set (pos_memory (visits c a vs)))"
      by (rule card_mono [OF finite_set])
    also have "\<dots> \<le> length (pos_memory (visits c a vs))" by (rule card_length)
    also have "\<dots> \<le> ant_mem c" by (rule 2)
    finally show False using h(3,5) by (simp add: distinct_card)
  qed
  have 4: "\<forall>r a' ph. deposit_pheromone r c a = Inr (a', ph) \<longrightarrow> length (pos_memory a') \<le> ant_mem c"
    using 1 by (auto dest: deposit_pheromone_Inr)
  from 1 2 3 4 show ?thesis by blast
qed

theorem taboo_memory_bounded_and_evicting_witness:
  "length (pos_memory (homing_ant [(0, 0)])) \<le> ant_mem strip
   \<and> pos_memory (visits strip (homing_ant [(0, 0)]) [(0, 1), (0, 2), (0, 3)]) = [(0, 2), (0, 3)]
   \<and> (0, 0) \<notin> set (pos_memory (visits strip (homing_ant [(0, 0)]) [(0, 1), (0, 2), (0, 3)]))"
proof -
  have h: "length (pos_memory (homing_ant [(0, 0)])) \<le> ant_mem strip"
    by (simp add: homing_ant_def strip_def)
  have e: "pos_memory (visits strip (homing_ant [(0, 0)]) [(0, 1), (0, 2), (0, 3)]) = [(0, 2), (0, 3)]"
    by (simp add: visits_def visit_def update_memory_def homing_ant_def strip_def)
  from taboo_memory_bounded_and_evicting [OF h, of "[(0, 1), (0, 2), (0, 3)]"]
  have "(0, 0) \<notin> set (pos_memory (visits strip (homing_ant [(0, 0)]) [(0, 1), (0, 2), (0, 3)]))"
    by (simp add: homing_ant_def strip_def)
  with h e show ?thesis by blast
qed

text \<open>
  C7 as stated counts any \<open>ant_mem + 1\<close> recorded visits to other coordinates. Recording
  a coordinate that is in the memory changes nothing, and an ant that is relocated can
  be at the same coordinate for several steps: with a capacity of two, three visits to
  \<open>(0, 1)\<close> leave \<open>(0, 0)\<close> in the memory.
\<close>

theorem repeated_visits_keep_oldest_counterexample:
  "length (pos_memory (homing_ant [(0, 0)])) \<le> ant_mem strip
   \<and> hd (pos_memory (homing_ant [(0, 0)])) = (0, 0)
   \<and> length [(0, 1), (0, 1), (0, 1 :: int)] = ant_mem strip + 1
   \<and> (0, 0) \<notin> set [(0, 1), (0, 1), (0, 1 :: int)]
   \<and> (0, 0) \<in> set (pos_memory (visits strip (homing_ant [(0, 0)]) [(0, 1), (0, 1), (0, 1)]))"
  by (simp add: visits_def visit_def update_memory_def homing_ant_def strip_def)

section \<open>Selection of a candidate\<close>

text \<open>
  C4 (the selected candidate is the in-bounds neighbour of highest probability that is
  not in the taboo memory). The selection keys a \<open>dict\<close> by probability, so of several
  candidates with the same probability only the one listed last is kept. In the colony
  \<open>strip_taboo\<close> the ant at \<open>(0, 2)\<close> has the neighbours \<open>(0, 3)\<close> and \<open>(0, 1)\<close>, listed
  in this order, both with probability \<open>1 / 2\<close>; \<open>(0, 1)\<close> is in its memory and \<open>(0, 3)\<close>
  is not. The selection returns no candidate, although \<open>(0, 3)\<close> is a neighbour of
  highest probability outside the memory.
\<close>

theorem selection_loses_tied_candidate:
  "get_max_probability_pos strip_taboo (update_memory strip_taboo (ants strip_taboo ! 0))
     directions = None
   \<and> get_index_probabilities strip_taboo (update_memory strip_taboo (ants strip_taboo ! 0))
       directions = ([Fin (1 / 10000), Fin (1 / 10000)], [(0, 3), (0, 1)])
   \<and> np_div (Fin (1 / 10000)) (py_sum [Fin (1 / 10000), Fin (1 / 10000)]) = Fin (1 / 2)
   \<and> pos_memory (update_memory strip_taboo (ants strip_taboo ! 0)) = [(0, 1), (0, 2)]"
  by (simp add: get_max_probability_pos_def strip_taboo_def strip_def update_memory_def
      directions_def get_index_probabilities_def positions_of_def in_bounds_def
      index_probability_def py_sum_def dict_zip_def ant_max_def sort_reverse_def
      key_lt_def binarysort_def binary_insert_def bisect_stop bisect_left bisect_right
      float64_range_unit)

section \<open>Construction\<close>

lemma pixel_intensity_cong:
  assumes "img c' = img c" and "rows c' = rows c" and "cols c' = cols c" and "i_max c' = i_max c"
  shows "pixel_intensity c' i j = pixel_intensity c i j"
  unfolding pixel_intensity_def assms by (rule refl)

lemma set_intensity_fields:
  "img (set_intensity c ij) = img c" "rows (set_intensity c ij) = rows c"
  "cols (set_intensity c ij) = cols c" "i_max (set_intensity c ij) = i_max c"
  "pheromone (set_intensity c ij) = pheromone c" "m (set_intensity c ij) = m c"
  "tau_min (set_intensity c ij) = tau_min c" "memory_index (set_intensity c ij) = memory_index c"
  "ants (set_intensity c ij) = ants c" "ant_mem (set_intensity c ij) = ant_mem c"
  "p (set_intensity c ij) = p c" "b (set_intensity c ij) = b c"
  "alpha (set_intensity c ij) = alpha c" "beta (set_intensity c ij) = beta c"
  by (simp_all add: set_intensity_def)

lemma foldl_set_intensity_fields:
  "img (foldl set_intensity c xs) = img c" "rows (foldl set_intensity c xs) = rows c"
  "cols (foldl set_intensity c xs) = cols c" "i_max (foldl set_intensity c xs) = i_max c"
  "pheromone (foldl set_intensity c xs) = pheromone c" "m (foldl set_intensity c xs) = m c"
  "tau_min (foldl set_intensity c xs) = tau_min c"
  "memory_index (foldl set_intensity c xs) = memory_index c"
  "ants (foldl set_intensity c xs) = ants c" "ant_mem (foldl set_intensity c xs) = ant_mem c"
  "p (foldl set_intensity c xs) = p c" "b (foldl set_intensity c xs) = b c"
  "alpha (foldl set_intensity c xs) = alpha c" "beta (foldl set_intensity c xs) = beta c"
  by (induction xs arbitrary: c) (simp_all add: set_intensity_fields)

lemma set_intensity_at:
  "intensities (set_intensity c ij) i j =
     (if (i, j) = ij then pixel_intensity c i j else intensities c i j)"
  by (cases ij) (simp add: set_intensity_def)

lemma foldl_set_intensity_at:
  "intensities (foldl set_intensity c xs) i j =
     (if (i, j) \<in> set xs then pixel_intensity c i j else intensities c i j)"
proof (induction xs arbitrary: c)
  case Nil
  show ?case by simp
next
  case (Cons ij xs)
  have pc: "pixel_intensity (set_intensity c ij) i j = pixel_intensity c i j"
    by (rule pixel_intensity_cong) (simp_all add: set_intensity_fields)
  show ?case
    by (simp add: Cons.IH pc set_intensity_at)
qed

lemma set_pixel_intensities_alt:
  "set_pixel_intensities c = foldl set_intensity c (ndindex (rows c) (cols c))"
  by (simp add: set_pixel_intensities_def)

lemma set_pixel_intensities_at:
  "intensities (set_pixel_intensities c) i j =
     (if in_bounds c (i, j) then pixel_intensity c i j else intensities c i j)"
  by (simp add: set_pixel_intensities_alt foldl_set_intensity_at in_bounds_ndindex)

lemma set_total_fields:
  "img (set_total c ij) = img c" "rows (set_total c ij) = rows c"
  "cols (set_total c ij) = cols c" "i_max (set_total c ij) = i_max c"
  "intensities (set_total c ij) = intensities c" "m (set_total c ij) = m c"
  "tau_min (set_total c ij) = tau_min c" "memory_index (set_total c ij) = memory_index c"
  "ants (set_total c ij) = ants c" "ant_mem (set_total c ij) = ant_mem c"
  "p (set_total c ij) = p c" "b (set_total c ij) = b c"
  "alpha (set_total c ij) = alpha c" "beta (set_total c ij) = beta c"
  by (simp_all add: set_total_def)

lemma foldl_set_total_fields:
  "img (foldl set_total c xs) = img c" "rows (foldl set_total c xs) = rows c"
  "cols (foldl set_total c xs) = cols c" "i_max (foldl set_total c xs) = i_max c"
  "intensities (foldl set_total c xs) = intensities c" "m (foldl set_total c xs) = m c"
  "tau_min (foldl set_total c xs) = tau_min c"
  "memory_index (foldl set_total c xs) = memory_index c"
  "ants (foldl set_total c xs) = ants c" "ant_mem (foldl set_total c xs) = ant_mem c"
  "p (foldl set_total c xs) = p c" "b (foldl set_total c xs) = b c"
  "alpha (foldl set_total c xs) = alpha c" "beta (foldl set_total c xs) = beta c"
  by (induction xs arbitrary: c) (simp_all add: set_total_fields)

lemma set_total_at:
  "pheromone (set_total c ij) i j k =
     (if (i, j) = ij \<and> k = m c then Fin (tau_min c) else pheromone c i j k)"
  by (cases ij) (simp add: set_total_def)

lemma foldl_set_total_at:
  "pheromone (foldl set_total c xs) i j k =
     (if (i, j) \<in> set xs \<and> k = m c then Fin (tau_min c) else pheromone c i j k)"
proof (induction xs arbitrary: c)
  case Nil
  show ?case by simp
next
  case (Cons ij xs)
  show ?case
    by (simp add: Cons.IH set_total_at set_total_fields)
qed

lemma init_total_at:
  "pheromone (init_total c) i j k =
     (if in_bounds c (i, j) \<and> k = m c then Fin (tau_min c) else pheromone c i j k)"
  by (simp add: init_total_def foldl_set_total_at in_bounds_ndindex)

lemma foldl_max_ge: "(a::nat) \<le> foldl max a xs"
proof (induction xs arbitrary: a)
  case Nil
  show ?case by simp
next
  case (Cons x xs)
  have "a \<le> max a x" by simp
  also have "\<dots> \<le> foldl max (max a x) xs" by (rule Cons.IH)
  finally show ?case by simp
qed

lemma foldl_max_upper: "x \<in> set xs \<Longrightarrow> (x::nat) \<le> foldl max a xs"
proof (induction xs arbitrary: a)
  case Nil
  then show ?case by simp
next
  case (Cons y ys)
  show ?case
  proof (cases "x = y")
    case True
    have "x \<le> max a y" using True by simp
    also have "\<dots> \<le> foldl max (max a y) ys" by (rule foldl_max_ge)
    finally show ?thesis by simp
  next
    case False
    with Cons.prems have "x \<in> set ys" by simp
    from Cons.IH [OF this] show ?thesis by simp
  qed
qed

lemma img_max_Inr:
  assumes "img_max nr nc pix = Inr mx"
  shows "0 < nr \<and> 0 < nc
    \<and> (\<forall>i j. 0 \<le> i \<and> i < int nr \<and> 0 \<le> j \<and> j < int nc \<longrightarrow> pix i j \<le> mx)"
proof -
  from assms have pos: "0 < nr" "0 < nc"
    and mx: "mx = foldl max 0 (map (\<lambda>ij. pix (fst ij) (snd ij)) (ndindex nr nc))"
    by (auto simp: img_max_def split: if_splits)
  have "pix i j \<le> mx" if "0 \<le> i \<and> i < int nr \<and> 0 \<le> j \<and> j < int nc" for i j
  proof -
    from that have "(i, j) \<in> set (ndindex nr nc)" by (simp add: set_ndindex)
    then have "pix i j \<in> (\<lambda>ij. pix (fst ij) (snd ij)) ` set (ndindex nr nc)"
      by force
    then have "pix i j \<in> set (map (\<lambda>ij. pix (fst ij) (snd ij)) (ndindex nr nc))"
      by (simp only: set_map)
    then show ?thesis unfolding mx by (rule foldl_max_upper)
  qed
  with pos show ?thesis by blast
qed

lemma abs_diff_le: "u \<le> mx \<Longrightarrow> v \<le> mx \<Longrightarrow> \<bar>int u - int v\<bar> \<le> int mx"
  by linarith

lemma pixel_intensity_cases:
  assumes "0 \<le> d" and "d \<le> int mx"
  shows "(0 < mx \<longrightarrow>
           (\<exists>r. np_mul (np_div (Fin 1) (Fin (real mx))) (Fin (real_of_int d)) = Fin r
                \<and> 0 \<le> r \<and> r \<le> 1))
       \<and> (mx = 0 \<longrightarrow> np_mul (np_div (Fin 1) (Fin (real mx))) (Fin (real_of_int d)) = NaN)"
proof (cases "mx = 0")
  case True
  with assms have "d = 0" by simp
  with True show ?thesis by (simp add: inf_signed_def)
next
  case False
  then have pos: "0 < real mx" by simp
  have "real_of_int d \<le> real mx" using assms(2) by (metis of_int_le_iff of_int_of_nat_eq)
  then have "1 / real mx * real_of_int d \<le> 1" using pos by (simp add: field_simps)
  moreover have "0 \<le> 1 / real mx * real_of_int d" using pos assms(1) by simp
  ultimately show ?thesis using False by simp
qed

lemma pixel_intensity_range:
  assumes bound: "\<forall>i j. in_bounds c (i, j) \<longrightarrow> img c i j \<le> i_max c"
    and cell: "in_bounds c (x, y)"
  shows "(0 < i_max c \<longrightarrow> (\<exists>r. pixel_intensity c x y = Fin r \<and> 0 \<le> r \<and> r \<le> 1))
       \<and> (i_max c = 0 \<longrightarrow> pixel_intensity c x y = NaN)"
proof -
  define inside where "inside = (x - 1 \<ge> 0 \<and> y - 1 \<ge> 0 \<and> x + 1 < int (rows c) \<and> y + 1 < int (cols c))"
  define d1 where "d1 = (if inside then \<bar>int (img c (x - 1) (y - 1)) - int (img c (x + 1) (y + 1))\<bar> else 0)"
  define d2 where "d2 = (if inside then \<bar>int (img c (x - 1) (y + 1)) - int (img c (x + 1) (y - 1))\<bar> else 0)"
  define d3 where "d3 = (if y - 1 \<ge> 0 \<and> y + 1 < int (cols c)
                then \<bar>int (img c x (y - 1)) - int (img c x (y + 1))\<bar> else 0)"
  define d4 where "d4 = (if x - 1 \<ge> 0 \<and> x + 1 < int (rows c)
                then \<bar>int (img c (x - 1) y) - int (img c (x + 1) y)\<bar> else 0)"
  have pi: "pixel_intensity c x y =
      np_mul (np_div (Fin 1) (Fin (real (i_max c)))) (Fin (real_of_int (max (max (max d1 d2) d3) d4)))"
    unfolding pixel_intensity_def Let_def inside_def d1_def d2_def d3_def d4_def by (rule refl)
  have le: "img c i j \<le> i_max c" if "0 \<le> i" "i < int (rows c)" "0 \<le> j" "j < int (cols c)" for i j
    using bound that by (simp add: in_bounds_def)
  from cell have xy: "0 \<le> x" "x < int (rows c)" "0 \<le> y" "y < int (cols c)"
    by (simp_all add: in_bounds_def)
  have b1: "0 \<le> d1 \<and> d1 \<le> int (i_max c)"
  proof (cases inside)
    case True
    then have "img c (x - 1) (y - 1) \<le> i_max c" "img c (x + 1) (y + 1) \<le> i_max c"
      unfolding inside_def by (simp_all add: le)
    moreover from True have "d1 = \<bar>int (img c (x - 1) (y - 1)) - int (img c (x + 1) (y + 1))\<bar>"
      unfolding d1_def by (rule if_P)
    ultimately show ?thesis by (simp add: abs_diff_le)
  next
    case False
    then have "d1 = 0" unfolding d1_def by (rule if_not_P)
    then show ?thesis by simp
  qed
  have b2: "0 \<le> d2 \<and> d2 \<le> int (i_max c)"
  proof (cases inside)
    case True
    then have "img c (x - 1) (y + 1) \<le> i_max c" "img c (x + 1) (y - 1) \<le> i_max c"
      unfolding inside_def by (simp_all add: le)
    moreover from True have "d2 = \<bar>int (img c (x - 1) (y + 1)) - int (img c (x + 1) (y - 1))\<bar>"
      unfolding d2_def by (rule if_P)
    ultimately show ?thesis by (simp add: abs_diff_le)
  next
    case False
    then have "d2 = 0" unfolding d2_def by (rule if_not_P)
    then show ?thesis by simp
  qed
  have b3: "0 \<le> d3 \<and> d3 \<le> int (i_max c)"
  proof (cases "y - 1 \<ge> 0 \<and> y + 1 < int (cols c)")
    case True
    then have "img c x (y - 1) \<le> i_max c" "img c x (y + 1) \<le> i_max c"
      using xy by (simp_all add: le)
    moreover from True have "d3 = \<bar>int (img c x (y - 1)) - int (img c x (y + 1))\<bar>"
      unfolding d3_def by (rule if_P)
    ultimately show ?thesis by (simp add: abs_diff_le)
  next
    case False
    then have "d3 = 0" unfolding d3_def by (rule if_not_P)
    then show ?thesis by simp
  qed
  have b4: "0 \<le> d4 \<and> d4 \<le> int (i_max c)"
  proof (cases "x - 1 \<ge> 0 \<and> x + 1 < int (rows c)")
    case True
    then have "img c (x - 1) y \<le> i_max c" "img c (x + 1) y \<le> i_max c"
      using xy by (simp_all add: le)
    moreover from True have "d4 = \<bar>int (img c (x - 1) y) - int (img c (x + 1) y)\<bar>"
      unfolding d4_def by (rule if_P)
    ultimately show ?thesis by (simp add: abs_diff_le)
  next
    case False
    then have "d4 = 0" unfolding d4_def by (rule if_not_P)
    then show ?thesis by simp
  qed
  have "0 \<le> max (max (max d1 d2) d3) d4" using b1 by linarith
  moreover have "max (max (max d1 d2) d3) d4 \<le> int (i_max c)"
    using b1 b2 b3 b4 by linarith
  ultimately show ?thesis
    unfolding pi by (rule pixel_intensity_cases)
qed

subsection \<open>Placing the ants\<close>

lemma card_grid: "card (grid nr nc) = nr * nc"
  by (simp add: grid_def card_cartesian_product)

lemma finite_grid: "finite (grid nr nc)"
  by (simp add: grid_def)

lemma place_pair_Some:
  assumes "place_pair nr nc draws pairs n = Some res"
  shows "case res of Inl e \<Rightarrow> nr = 0 \<or> nc = 0
         | Inr (pr, n') \<Rightarrow> pr \<notin> pairs \<and> pr \<in> grid nr nc"
proof (rule place_pair.raw_induct
    [where P = "\<lambda>nr nc draws pairs n res. case res of Inl e \<Rightarrow> nr = 0 \<or> nc = 0
         | Inr (pr, n') \<Rightarrow> pr \<notin> pairs \<and> pr \<in> grid nr nc", OF _ assms])
  fix f :: "nat \<Rightarrow> nat \<Rightarrow> (nat \<Rightarrow> nat \<times> nat) \<Rightarrow> coord set \<Rightarrow> nat \<Rightarrow> (error + coord \<times> nat) option"
    and nr nc draws pairs n res
  assume IH: "\<And>nr nc draws pairs n y. f nr nc draws pairs n = Some y \<Longrightarrow>
      (case y of Inl e \<Rightarrow> nr = 0 \<or> nc = 0
       | Inr (pr, n') \<Rightarrow> pr \<notin> pairs \<and> pr \<in> grid nr nc)"
  assume body: "(case randrange nr (fst (draws n)) of Inl e \<Rightarrow> Some (Inl e)
      | Inr x \<Rightarrow>
          case randrange nc (snd (draws n)) of Inl e \<Rightarrow> Some (Inl e)
          | Inr y \<Rightarrow>
              if (x, y) \<notin> pairs then Some (Inr ((x, y), Suc n))
              else f nr nc draws pairs (Suc n)) = Some res"
  show "case res of Inl e \<Rightarrow> nr = 0 \<or> nc = 0
         | Inr (pr, n') \<Rightarrow> pr \<notin> pairs \<and> pr \<in> grid nr nc"
  proof (cases "nr = 0 \<or> nc = 0")
    case True
    with body show ?thesis by (auto simp: randrange_def split: sum.splits if_splits)
  next
    case False
    then have g: "(int (fst (draws n) mod nr), int (snd (draws n) mod nc)) \<in> grid nr nc"
      by (simp add: grid_def)
    show ?thesis
    proof (cases "(int (fst (draws n) mod nr), int (snd (draws n) mod nc)) \<notin> pairs")
      case True
      with body False have "res = Inr ((int (fst (draws n) mod nr), int (snd (draws n) mod nc)), Suc n)"
        by (simp add: randrange_def)
      with True g show ?thesis by simp
    next
      case F: False
      with body False have "f nr nc draws pairs (Suc n) = Some res"
        by (simp add: randrange_def)
      then show ?thesis by (rule IH)
    qed
  qed
qed

lemma place_ants_Some:
  "place_ants nr nc draws k = Some res \<Longrightarrow>
   (case res of Inl e \<Rightarrow> nr = 0 \<or> nc = 0
    | Inr (as, pairs, n) \<Rightarrow> placed nr nc k as pairs)"
proof (induction k arbitrary: res)
  case 0
  then show ?case by (auto simp: placed_def)
next
  case (Suc k)
  from Suc.prems obtain r1 where r1: "place_ants nr nc draws k = Some r1"
    by (auto split: option.splits)
  show ?case
  proof (cases r1)
    case (Inl e)
    with Suc.IH [OF r1] Suc.prems r1 show ?thesis by auto
  next
    case (Inr t)
    obtain as pairs n where t: "t = (as, pairs, n)" by (cases t)
    from Suc.IH [OF r1] Inr t have pl: "placed nr nc k as pairs" by simp
    from Suc.prems r1 Inr t obtain r2 where r2: "place_pair nr nc draws pairs n = Some r2"
      by (auto split: option.splits)
    show ?thesis
    proof (cases r2)
      case (Inl e)
      with place_pair_Some [OF r2] Suc.prems r1 \<open>r1 = Inr t\<close> t r2 show ?thesis by auto
    next
      case I2: (Inr u)
      obtain pr n' where u: "u = (pr, n')" by (cases u)
      from place_pair_Some [OF r2] I2 u have new: "pr \<notin> pairs" "pr \<in> grid nr nc" by auto
      let ?a = "\<lparr>row = fst pr, col = snd pr, pos_memory = [], special = (k mod 100 = 0)\<rparr>"
      from Suc.prems r1 Inr t r2 I2 u
      have res: "res = Inr (as @ [?a], insert pr pairs, n')" by simp
      from pl have fin: "finite pairs"
        using finite_grid finite_subset unfolding placed_def by blast
      from pl have p1: "length as = k" and p2: "pairs \<subseteq> grid nr nc" and p3: "card pairs = k"
        and p4: "pairs = set (map (\<lambda>a. (row a, col a)) as)"
        and p5: "distinct (map (\<lambda>a. (row a, col a)) as)"
        and p6: "\<forall>a \<in> set as. pos_memory a = []"
        unfolding placed_def by blast+
      have q1: "length (as @ [?a]) = Suc k" using p1 by simp
      have q2: "insert pr pairs \<subseteq> grid nr nc" using p2 new(2) by simp
      have q3: "card (insert pr pairs) = Suc k" using p3 fin new(1) by simp
      have q4: "insert pr pairs = set (map (\<lambda>a. (row a, col a)) (as @ [?a]))"
        using p4 by simp
      have q5: "distinct (map (\<lambda>a. (row a, col a)) (as @ [?a]))"
        using p5 new(1) p4 by simp
      have q6: "\<forall>a \<in> set (as @ [?a]). pos_memory a = []" using p6 by simp
      have "placed nr nc (Suc k) (as @ [?a]) (insert pr pairs)"
        unfolding placed_def using q1 q2 q3 q4 q5 q6 by blast
      with res show ?thesis by simp
    qed
  qed
qed

lemma placed_bound: "placed nr nc k as pairs \<Longrightarrow> k \<le> nr * nc"
proof -
  assume "placed nr nc k as pairs"
  then have "pairs \<subseteq> grid nr nc" "card pairs = k" unfolding placed_def by blast+
  then show ?thesis using card_mono [OF finite_grid, of pairs nr nc] by (simp add: card_grid)
qed

subsection \<open>The colony after construction\<close>

lemma set_pixel_intensities_fields:
  "img (set_pixel_intensities c) = img c" "rows (set_pixel_intensities c) = rows c"
  "cols (set_pixel_intensities c) = cols c" "i_max (set_pixel_intensities c) = i_max c"
  "pheromone (set_pixel_intensities c) = pheromone c" "m (set_pixel_intensities c) = m c"
  "tau_min (set_pixel_intensities c) = tau_min c"
  "memory_index (set_pixel_intensities c) = memory_index c"
  "ants (set_pixel_intensities c) = ants c" "ant_mem (set_pixel_intensities c) = ant_mem c"
  "p (set_pixel_intensities c) = p c" "b (set_pixel_intensities c) = b c"
  "alpha (set_pixel_intensities c) = alpha c" "beta (set_pixel_intensities c) = beta c"
  by (simp_all add: set_pixel_intensities_def foldl_set_intensity_fields)

lemma init_total_fields:
  "img (init_total c) = img c" "rows (init_total c) = rows c"
  "cols (init_total c) = cols c" "i_max (init_total c) = i_max c"
  "intensities (init_total c) = intensities c" "m (init_total c) = m c"
  "tau_min (init_total c) = tau_min c" "memory_index (init_total c) = memory_index c"
  "ants (init_total c) = ants c" "ant_mem (init_total c) = ant_mem c"
  "p (init_total c) = p c" "b (init_total c) = b c"
  "alpha (init_total c) = alpha c" "beta (init_total c) = beta c"
  by (simp_all add: init_total_def foldl_set_total_fields)

lemma in_bounds_cong:
  assumes "rows c' = rows c" and "cols c' = cols c"
  shows "in_bounds c' xy = in_bounds c xy"
  unfolding in_bounds_def assms by (rule refl)

lemma colony_init_Inr:
  assumes "colony_init draws nr nc pix n pe pm am tm itv al be = Some (Inr c)"
  shows "rows c = nr \<and> cols c = nc \<and> img c = pix \<and> img_max nr nc pix = Inr (i_max c)
    \<and> m c = pm \<and> ant_mem c = am \<and> tau_min c = tm \<and> p c = pe \<and> b c = itv
    \<and> alpha c = al \<and> beta c = be \<and> memory_index c = 0
    \<and> (\<forall>i j k. pheromone c i j k = (if in_bounds c (i, j) \<and> k = pm then Fin tm else Fin 0))
    \<and> (\<forall>i j. intensities c i j = (if in_bounds c (i, j) then pixel_intensity c i j else Fin 0))
    \<and> (\<exists>pairs. placed nr nc n (ants c) pairs)"
proof -
  from assms obtain mx where mx: "img_max nr nc pix = Inr mx"
    by (auto simp: colony_init_def split: sum.splits)
  define c0 where "c0 = \<lparr>alpha = al, beta = be, rows = nr, cols = nc, img = pix, i_max = mx,
                    intensities = (\<lambda>_ _. Fin 0), ants = [],
                    pheromone = (\<lambda>_ _ _. Fin 0), m = pm,
                    ant_mem = am, tau_min = tm,
                    p = pe, b = itv,
                    memory_index = 0\<rparr>"
  define c2 where "c2 = set_pixel_intensities c0"
  define c1 where "c1 = init_total c2"
  from assms mx obtain as pairs k where
    pl: "place_ants nr nc draws n = Some (Inr (as, pairs, k))" and c: "c = c1\<lparr>ants := as\<rparr>"
    by (auto simp: colony_init_def Let_def c0_def c1_def c2_def split: option.splits sum.splits)
  have f0: "rows c0 = nr" "cols c0 = nc" "img c0 = pix" "i_max c0 = mx" "m c0 = pm"
    "ant_mem c0 = am" "tau_min c0 = tm" "p c0 = pe" "b c0 = itv" "alpha c0 = al" "beta c0 = be"
    "memory_index c0 = 0" "pheromone c0 = (\<lambda>_ _ _. Fin 0)" "intensities c0 = (\<lambda>_ _. Fin 0)"
    by (simp_all add: c0_def)
  have f2: "rows c2 = nr" "cols c2 = nc" "img c2 = pix" "i_max c2 = mx" "m c2 = pm"
    "ant_mem c2 = am" "tau_min c2 = tm" "p c2 = pe" "b c2 = itv" "alpha c2 = al" "beta c2 = be"
    "memory_index c2 = 0" "pheromone c2 = (\<lambda>_ _ _. Fin 0)"
    by (simp_all add: c2_def set_pixel_intensities_fields f0)
  have f1: "rows c1 = nr" "cols c1 = nc" "img c1 = pix" "i_max c1 = mx" "m c1 = pm"
    "ant_mem c1 = am" "tau_min c1 = tm" "p c1 = pe" "b c1 = itv" "alpha c1 = al" "beta c1 = be"
    "memory_index c1 = 0" "intensities c1 = intensities c2"
    by (simp_all add: c1_def init_total_fields f2)
  have fc: "rows c = nr" "cols c = nc" "img c = pix" "i_max c = mx" "m c = pm"
    "ant_mem c = am" "tau_min c = tm" "p c = pe" "b c = itv" "alpha c = al" "beta c = be"
    "memory_index c = 0" "intensities c = intensities c2" "pheromone c = pheromone c1"
    "ants c = as"
    by (simp_all add: c f1)
  have ib2: "in_bounds c2 xy = in_bounds c xy" for xy
    by (rule in_bounds_cong) (simp_all add: f2 fc)
  have ib0: "in_bounds c0 xy = in_bounds c xy" for xy
    by (rule in_bounds_cong) (simp_all add: f0 fc)
  have ph: "pheromone c i j k = (if in_bounds c (i, j) \<and> k = pm then Fin tm else Fin 0)" for i j k
    by (simp add: fc c1_def init_total_at ib2 f2)
  have pc: "pixel_intensity c0 i j = pixel_intensity c i j" for i j
    by (rule pixel_intensity_cong) (simp_all add: fc f0)
  have it: "intensities c i j = (if in_bounds c (i, j) then pixel_intensity c i j else Fin 0)" for i j
    by (simp add: fc c2_def set_pixel_intensities_at pc ib0 f0)
  from place_ants_Some [OF pl] have "placed nr nc n as pairs" by simp
  then have pl': "\<exists>pairs. placed nr nc n (ants c) pairs" unfolding fc by blast
  show ?thesis
    using fc(1-12) mx ph it pl' by simp
qed

lemma ndindex_1_5: "ndindex (Suc 0) 5 = [(0, 0), (0, 1), (0, 2), (0, 3), (0, 4)]"
proof -
  have "[0..<5] = [0, 1, 2, 3, 4::nat]" by (simp add: upt_rec)
  then show ?thesis by (simp add: ndindex_def)
qed

lemma img_max_strip: "img_max 1 5 strip_img = Inr 4"
  by (simp add: img_max_def ndindex_1_5 strip_img_def)

lemma img_max_dark: "img_max 1 5 (\<lambda>_ _. 0) = Inr 0"
  by (simp add: img_max_def ndindex_1_5)

lemma place_one: "place_ants 1 5 (\<lambda>_. (0, 2)) (Suc 0) =
    Some (Inr ([\<lparr>row = 0, col = 2, pos_memory = [], special = True\<rparr>], {(0, 2)}, Suc 0))"
  by (simp add: place_pair.simps randrange_def)

lemma colony_init_strip:
  "colony_init (\<lambda>_. (0, 2)) 1 5 strip_img 1 (1 / 10) 2 2 (1 / 10000) (1 / 20) 1 1
     = Some (Inr strip_built)"
  using place_one img_max_strip by (simp add: colony_init_def strip_built_def Let_def)

lemma colony_init_dark:
  "colony_init (\<lambda>_. (0, 0)) 1 5 (\<lambda>_ _. 0) 0 (1 / 10) 2 2 (1 / 10000) (1 / 20) 1 1
     = Some (Inr dark_built)"
  using img_max_dark by (simp add: colony_init_def dark_built_def Let_def)

lemma colony_init_Some:
  assumes "colony_init draws nr nc pix n pe pm am tm itv al be = Some res"
  shows "case res of Inl e \<Rightarrow> nr = 0 \<or> nc = 0 | Inr c \<Rightarrow> n \<le> nr * nc \<and> 0 < nr \<and> 0 < nc"
proof (cases res)
  case (Inr c)
  from colony_init_Inr [OF assms [unfolded Inr]]
  obtain pairs where "placed nr nc n (ants c) pairs" and "img_max nr nc pix = Inr (i_max c)"
    by blast
  then show ?thesis using Inr placed_bound img_max_Inr by (auto simp del: of_nat_mult)
next
  case (Inl e)
  show ?thesis
  proof (cases "img_max nr nc pix")
    case I: (Inl e')
    then show ?thesis using Inl by (auto simp: img_max_def split: if_splits)
  next
    case (Inr mx)
    with assms Inl obtain e' where "place_ants nr nc draws n = Some (Inl e')"
      by (auto simp: colony_init_def Let_def split: option.splits sum.splits)
    from place_ants_Some [OF this] Inl show ?thesis by simp
  qed
qed

lemma colony_init_hangs:
  assumes "0 < nr" and "0 < nc" and "nr * nc < n"
  shows "colony_init draws nr nc pix n pe pm am tm itv al be = None"
proof (cases "colony_init draws nr nc pix n pe pm am tm itv al be")
  case None
  then show ?thesis .
next
  case (Some res)
  from colony_init_Some [OF Some] assms show ?thesis by (cases res) auto
qed

lemma colony_init_empty:
  assumes "nr = 0 \<or> nc = 0"
  shows "colony_init draws nr nc pix n pe pm am tm itv al be = Some (Inl ValueError)"
  using assms by (auto simp: colony_init_def img_max_def)

text \<open>
  C5, as amended. On an image with at least one cell, the construction of a colony
  with more ants than cells does not return: it neither builds a colony nor reports an
  error, whatever the random draws are. On an image without cells the construction
  raises \<open>ValueError\<close>, whatever the number of ants. The construction builds a colony
  only when the number of ants is at most the number of cells.
\<close>

theorem construction_needs_room:
  "(0 < nr \<and> 0 < nc \<and> nr * nc < n \<longrightarrow>
      colony_init draws nr nc pix n pe pm am tm itv al be = None)
   \<and> (nr = 0 \<or> nc = 0 \<longrightarrow>
      colony_init draws nr nc pix n pe pm am tm itv al be = Some (Inl ValueError))
   \<and> (\<forall>c. colony_init draws nr nc pix n pe pm am tm itv al be = Some (Inr c) \<longrightarrow>
      n \<le> nr * nc \<and> length (ants c) = n
      \<and> distinct (map (\<lambda>a. (row a, col a)) (ants c)))"
proof -
  have 1: "0 < nr \<and> 0 < nc \<and> nr * nc < n \<longrightarrow>
      colony_init draws nr nc pix n pe pm am tm itv al be = None"
    using colony_init_hangs by blast
  have 2: "nr = 0 \<or> nc = 0 \<longrightarrow>
      colony_init draws nr nc pix n pe pm am tm itv al be = Some (Inl ValueError)"
    using colony_init_empty by blast
  have 3: "n \<le> nr * nc \<and> length (ants c) = n \<and> distinct (map (\<lambda>a. (row a, col a)) (ants c))"
    if h: "colony_init draws nr nc pix n pe pm am tm itv al be = Some (Inr c)" for c
  proof -
    from colony_init_Inr [OF h] obtain pairs where pl: "placed nr nc n (ants c) pairs" by blast
    from pl have "length (ants c) = n" "distinct (map (\<lambda>a. (row a, col a)) (ants c))"
      unfolding placed_def by blast+
    with placed_bound [OF pl] show ?thesis by blast
  qed
  from 1 2 3 show ?thesis by blast
qed

theorem construction_needs_room_witness:
  "colony_init (\<lambda>_. (0, 0)) 1 1 (\<lambda>_ _. 7) 2 (1 / 10) 2 2 (1 / 10000) (1 / 20) 1 1 = None
   \<and> colony_init (\<lambda>_. (0, 0)) 0 5 (\<lambda>_ _. 7) 2 (1 / 10) 2 2 (1 / 10000) (1 / 20) 1 1
       = Some (Inl ValueError)
   \<and> colony_init (\<lambda>_. (0, 2)) 1 5 strip_img 1 (1 / 10) 2 2 (1 / 10000) (1 / 20) 1 1
       = Some (Inr strip_built)
   \<and> (1::nat) \<le> 1 * 5 \<and> length (ants strip_built) = 1"
  using construction_needs_room [of 1 1 2 "\<lambda>_. (0, 0)" "\<lambda>_ _. 7" "1 / 10" 2 2 "1 / 10000" "1 / 20" 1 1]
    construction_needs_room [of 0 5 2 "\<lambda>_. (0, 0)" "\<lambda>_ _. 7" "1 / 10" 2 2 "1 / 10000" "1 / 20" 1 1]
    construction_needs_room [of 1 5 1 "\<lambda>_. (0, 2)" strip_img "1 / 10" 2 2 "1 / 10000" "1 / 20" 1 1]
    colony_init_strip
  by simp

text \<open>
  C5 as stated has the construction fail fast when there are more ants than cells. With
  two ants on an image of one cell, the second ant can never be placed: the
  construction reports no error, it does not return.
\<close>

theorem construction_hangs_counterexample:
  "colony_init (\<lambda>_. (0, 0)) 1 1 (\<lambda>_ _. 7) 2 (1 / 10) 2 2 (1 / 10000) (1 / 20) 1 1 = None
   \<and> \<not> (\<exists>e. colony_init (\<lambda>_. (0, 0)) 1 1 (\<lambda>_ _. 7) 2 (1 / 10) 2 2 (1 / 10000) (1 / 20) 1 1
            = Some (Inl e))"
proof -
  have "colony_init (\<lambda>_. (0, 0)) 1 1 (\<lambda>_ _. 7) 2 (1 / 10) 2 2 (1 / 10000) (1 / 20) 1 1 = None"
    by (rule colony_init_hangs) simp_all
  then show ?thesis by simp
qed

text \<open>
  C10. In a colony that the construction has built, \<open>i_max\<close> is the largest sample of
  the image. When it is positive, the intensity of every cell of the grid is a finite
  value between 0 and 1. When it is 0, that is on an image of zeros, the division
  \<open>1 / i_max\<close> gives \<open>inf\<close>, the product with the largest difference 0 is \<open>nan\<close>, and the
  intensity of every cell is \<open>nan\<close>, which is not a value between 0 and 1.
\<close>

theorem intensities_need_positive_maximum:
  assumes "colony_init draws nr nc pix n pe pm am tm itv al be = Some (Inr c)"
    and "in_bounds c (i, j)"
  shows "img_max nr nc pix = Inr (i_max c)
    \<and> (0 < i_max c \<longrightarrow> (\<exists>r. intensities c i j = Fin r \<and> 0 \<le> r \<and> r \<le> 1))
    \<and> (i_max c = 0 \<longrightarrow> intensities c i j = NaN \<and> \<not> np_ge (intensities c i j) (Fin 0))"
proof -
  from colony_init_Inr [OF assms(1)]
  have f: "rows c = nr" "cols c = nc" "img c = pix" and mx: "img_max nr nc pix = Inr (i_max c)"
    and it: "intensities c i j = (if in_bounds c (i, j) then pixel_intensity c i j else Fin 0)"
    by blast+
  from img_max_Inr [OF mx] have "\<forall>x y. in_bounds c (x, y) \<longrightarrow> img c x y \<le> i_max c"
    by (simp add: in_bounds_def f)
  from pixel_intensity_range [OF this assms(2)] it assms(2) mx
  show ?thesis by simp
qed

lemma built_fields:
  "rows strip_built = 1" "cols strip_built = 5" "i_max strip_built = 4"
  "rows dark_built = 1" "cols dark_built = 5" "i_max dark_built = 0"
  by (simp_all add: strip_built_def dark_built_def init_total_fields set_pixel_intensities_fields)

theorem intensities_need_positive_maximum_witness:
  "colony_init (\<lambda>_. (0, 2)) 1 5 strip_img 1 (1 / 10) 2 2 (1 / 10000) (1 / 20) 1 1
     = Some (Inr strip_built)
   \<and> in_bounds strip_built (0, 1) \<and> 0 < i_max strip_built
   \<and> (\<exists>r. intensities strip_built 0 1 = Fin r \<and> 0 \<le> r \<and> r \<le> 1)
   \<and> colony_init (\<lambda>_. (0, 0)) 1 5 (\<lambda>_ _. 0) 0 (1 / 10) 2 2 (1 / 10000) (1 / 20) 1 1
     = Some (Inr dark_built)
   \<and> in_bounds dark_built (0, 1) \<and> i_max dark_built = 0
   \<and> intensities dark_built 0 1 = NaN"
proof -
  have b1: "in_bounds strip_built (0, 1)" and b2: "in_bounds dark_built (0, 1)"
    by (simp_all add: in_bounds_def built_fields)
  from intensities_need_positive_maximum [OF colony_init_strip b1]
    intensities_need_positive_maximum [OF colony_init_dark b2]
    colony_init_strip colony_init_dark b1 b2
  show ?thesis by (simp add: built_fields)
qed

section \<open>Invariants\<close>

lemma foldl_np_add_Fin:
  "\<forall>x \<in> set xs. \<exists>v. x = Fin v \<Longrightarrow> \<exists>v. foldl np_add (Fin u) xs = Fin v"
proof (induction xs arbitrary: u)
  case Nil
  show ?case by simp
next
  case (Cons x xs)
  then obtain v where "x = Fin v" by auto
  with Cons show ?case by simp
qed

lemma py_sum_Fin: "\<forall>x \<in> set xs. \<exists>v. x = Fin v \<Longrightarrow> \<exists>v. py_sum xs = Fin v"
  unfolding py_sum_def by (rule foldl_np_add_Fin)

lemma py_sum_zero: "\<forall>x \<in> set xs. x = Fin 0 \<Longrightarrow> py_sum xs = Fin 0"
  unfolding py_sum_def by (induction xs) simp_all

lemma np_add_zero: "np_add x (Fin 0) = x"
  by (cases x) simp_all

lemma py_max_Fin: "py_max (Fin u) (Fin v) = Fin (max u v)"
  by (simp add: py_max_def max_def)

lemma cell_total_Fin:
  assumes "pheromone c i j (m c) = Fin t" and "\<forall>k < m c. \<exists>v. pheromone c i j k = Fin v"
  shows "\<exists>t'. cell_total c i j = Fin t' \<and> tau_min c \<le> t'"
proof -
  have "\<forall>x \<in> set (map (pheromone c i j) [0..<m c]). \<exists>v. x = Fin v"
    using assms(2) by auto
  from py_sum_Fin [OF this] obtain s where "py_sum (map (pheromone c i j) [0..<m c]) = Fin s" ..
  then have "cell_total c i j = Fin (max ((1 - p c) * t + s) (tau_min c))"
    by (simp add: cell_total_def assms(1) py_max_Fin)
  then show ?thesis by simp
qed

lemma in_bounds_adjust [simp]: "in_bounds (adjust_pheromone c) xy = in_bounds c xy"
  by (rule in_bounds_cong) (simp_all add: adjust_pheromone_fields)

lemma colony_inv_adjust:
  assumes "colony_inv c"
  shows "colony_inv (adjust_pheromone c)"
proof -
  from assms have idx: "memory_index c < m c" by (simp add: colony_inv_def)
  then have nx: "next_index c < m c" by (simp add: next_index_valid)
  have cell: "(\<exists>t. pheromone (adjust_pheromone c) i j (m c) = Fin t \<and> tau_min c \<le> t)
           \<and> (\<forall>k < m c. \<exists>v. pheromone (adjust_pheromone c) i j k = Fin v)
           \<and> intensities c i j \<noteq> PInf \<and> intensities c i j \<noteq> NInf"
    if ib: "in_bounds c (i, j)" for i j
  proof -
    from assms ib obtain t where t: "pheromone c i j (m c) = Fin t"
      and mem: "\<forall>k < m c. \<exists>v. pheromone c i j k = Fin v"
      and int: "intensities c i j \<noteq> PInf" "intensities c i j \<noteq> NInf"
      unfolding colony_inv_def by blast
    from cell_total_Fin [OF t mem] nx ib
    have 1: "\<exists>t. pheromone (adjust_pheromone c) i j (m c) = Fin t \<and> tau_min c \<le> t"
      by (simp add: adjust_pheromone_pheromone)
    have 2: "\<forall>k < m c. \<exists>v. pheromone (adjust_pheromone c) i j k = Fin v"
      using mem ib by (simp add: adjust_pheromone_pheromone)
    from 1 2 int show ?thesis by blast
  qed
  have ants: "\<forall>a \<in> set (ants c). length (pos_memory a) \<le> ant_mem c"
    using assms by (simp add: colony_inv_def)
  show ?thesis
    unfolding colony_inv_def
    using nx cell ants by (simp add: adjust_pheromone_fields)
qed

lemma np_ge_Fin_cases: "np_ge x (Fin u) \<Longrightarrow> x \<noteq> PInf \<Longrightarrow> \<exists>v. x = Fin v"
  by (cases x) simp_all

lemma colony_inv_step:
  assumes inv: "colony_inv c" and k: "k < length (ants c)" and step: "ant_step k r c = Inr c'"
  shows "colony_inv c'"
proof -
  from step obtain a' ph where
    d: "deposit_pheromone r c (ants c ! k) = Inr (a', ph)" and
    c': "c' = c\<lparr>ants := (ants c)[k := a'], pheromone := ph\<rparr>"
    by (rule ant_step_Inr)
  from inv have idx: "memory_index c < m c" by (simp add: colony_inv_def)
  from deposit_pheromone_Inr [OF d]
  have mem: "pos_memory a' = pos_memory (update_memory c (ants c ! k))"
    and ph: "ph = pheromone c
        \<or> (\<exists>x y. in_bounds c (x, y) \<and> np_ge (intensities c x y) (Fin (b c))
             \<and> ph = (pheromone c)(x := (pheromone c x)(y := (pheromone c x y)
                        (memory_index c := intensities c x y))))"
    by blast+
  have ib: "in_bounds c' xy = in_bounds c xy" for xy
    by (rule in_bounds_cong) (simp_all add: c')
  have cell: "(\<exists>t. ph i j (m c) = Fin t \<and> tau_min c \<le> t)
           \<and> (\<forall>n < m c. \<exists>v. ph i j n = Fin v)
           \<and> intensities c i j \<noteq> PInf \<and> intensities c i j \<noteq> NInf"
    if inb: "in_bounds c (i, j)" for i j
  proof -
    from inv inb have old: "\<exists>t. pheromone c i j (m c) = Fin t \<and> tau_min c \<le> t"
      "\<forall>n < m c. \<exists>v. pheromone c i j n = Fin v"
      "intensities c i j \<noteq> PInf" "intensities c i j \<noteq> NInf"
      unfolding colony_inv_def by blast+
    from ph show ?thesis
    proof
      assume "ph = pheromone c"
      with old show ?thesis by simp
    next
      assume "\<exists>x y. in_bounds c (x, y) \<and> np_ge (intensities c x y) (Fin (b c))
             \<and> ph = (pheromone c)(x := (pheromone c x)(y := (pheromone c x y)
                        (memory_index c := intensities c x y)))"
      then obtain x y where xy: "in_bounds c (x, y)" and ge: "np_ge (intensities c x y) (Fin (b c))"
        and e: "ph = (pheromone c)(x := (pheromone c x)(y := (pheromone c x y)
                        (memory_index c := intensities c x y)))"
        by blast
      from inv xy have "intensities c x y \<noteq> PInf" unfolding colony_inv_def by blast
      from np_ge_Fin_cases [OF ge this] obtain v where v: "intensities c x y = Fin v" ..
      have 1: "\<exists>t. ph i j (m c) = Fin t \<and> tau_min c \<le> t"
        using old(1) idx by (auto simp: e)
      have 2: "\<forall>n < m c. \<exists>w. ph i j n = Fin w"
        using old(2) v by (auto simp: e)
      from 1 2 old(3,4) show ?thesis by blast
    qed
  qed
  have a': "length (pos_memory a') \<le> ant_mem c"
  proof -
    from k have "ants c ! k \<in> set (ants c)" by simp
    with inv have "length (pos_memory (ants c ! k)) \<le> ant_mem c"
      unfolding colony_inv_def by blast
    then show ?thesis unfolding mem by (rule update_memory_length)
  qed
  have ants: "\<forall>a \<in> set ((ants c)[k := a']). length (pos_memory a) \<le> ant_mem c"
  proof
    fix a assume "a \<in> set ((ants c)[k := a'])"
    then have "a = a' \<or> a \<in> set (ants c)"
      using set_update_subset_insert [of "ants c" k a'] by auto
    with a' inv show "length (pos_memory a) \<le> ant_mem c"
      unfolding colony_inv_def by blast
  qed
  show ?thesis
    unfolding colony_inv_def
    using idx cell ants by (simp add: c' ib [unfolded c'] in_bounds_def)
qed

lemma colony_inv_init:
  assumes init: "colony_init draws nr nc pix n pe pm am tm itv al be = Some (Inr c)"
    and pm: "1 \<le> pm"
  shows "colony_inv c"
proof -
  from colony_init_Inr [OF init]
  have f: "rows c = nr" "cols c = nc" "img c = pix" "m c = pm" "ant_mem c = am" "tau_min c = tm"
      "memory_index c = 0"
    and mx: "img_max nr nc pix = Inr (i_max c)"
    and ph: "\<forall>i j k. pheromone c i j k = (if in_bounds c (i, j) \<and> k = pm then Fin tm else Fin 0)"
    and it: "\<forall>i j. intensities c i j = (if in_bounds c (i, j) then pixel_intensity c i j else Fin 0)"
    and pl: "\<exists>pairs. placed nr nc n (ants c) pairs"
    by blast+
  from img_max_Inr [OF mx] have bound: "\<forall>x y. in_bounds c (x, y) \<longrightarrow> img c x y \<le> i_max c"
    by (simp add: in_bounds_def f)
  have cell: "(\<exists>t. pheromone c i j (m c) = Fin t \<and> tau_min c \<le> t)
           \<and> (\<forall>k < m c. \<exists>v. pheromone c i j k = Fin v)
           \<and> intensities c i j \<noteq> PInf \<and> intensities c i j \<noteq> NInf"
    if inb: "in_bounds c (i, j)" for i j
  proof -
    from pixel_intensity_range [OF bound inb]
    have "(\<exists>r. pixel_intensity c i j = Fin r) \<or> pixel_intensity c i j = NaN"
      by (cases "i_max c = 0") auto
    then have "intensities c i j \<noteq> PInf \<and> intensities c i j \<noteq> NInf"
      using it inb by auto
    moreover have "\<exists>t. pheromone c i j (m c) = Fin t \<and> tau_min c \<le> t"
      using ph inb by (simp add: f)
    moreover have "\<forall>k < m c. \<exists>v. pheromone c i j k = Fin v"
      using ph by simp
    ultimately show ?thesis by blast
  qed
  from pl have "\<forall>a \<in> set (ants c). length (pos_memory a) \<le> ant_mem c"
    unfolding placed_def by auto
  moreover have "memory_index c < m c" using pm by (simp add: f)
  ultimately show ?thesis unfolding colony_inv_def using cell by blast
qed

lemma colony_inv_reachable:
  "reachable_from c0 c \<Longrightarrow> colony_inv c0 \<Longrightarrow> colony_inv c"
proof (induction rule: reachable_from.induct)
  case start
  then show ?case .
next
  case (step c k r c')
  then show ?case using colony_inv_step by blast
next
  case (consolidate c)
  then show ?case using colony_inv_adjust by blast
qed

lemma reachable_fields:
  "reachable_from c0 c \<Longrightarrow>
   rows c = rows c0 \<and> cols c = cols c0 \<and> m c = m c0 \<and> tau_min c = tau_min c0 \<and> p c = p c0"
proof (induction rule: reachable_from.induct)
  case start
  show ?case by simp
next
  case (step c k r c')
  from step(3) obtain a' ph where "c' = c\<lparr>ants := (ants c)[k := a'], pheromone := ph\<rparr>"
    by (rule ant_step_Inr)
  with step.IH show ?case by simp
next
  case (consolidate c)
  then show ?case by (simp add: adjust_pheromone_fields)
qed

text \<open>
  C2. Take a colony that the construction has built with at least one memory layer, as
  the configuration requires. In every state that it reaches by steps of its ants and
  consolidations, the total layer of every cell of the grid holds a finite value that
  is at least \<open>tau_min\<close>.
\<close>

theorem total_layer_at_least_tau_min:
  assumes "colony_init draws nr nc pix n pe pm am tm itv al be = Some (Inr c0)"
    and "1 \<le> pm" and "reachable_from c0 c" and "in_bounds c (i, j)"
  shows "np_ge (pheromone c i j (m c)) (Fin (tau_min c))
    \<and> (\<exists>t. pheromone c i j (m c) = Fin t \<and> tau_min c \<le> t)
    \<and> tau_min c = tm \<and> m c = pm"
proof -
  have "colony_inv c"
    using assms(3) colony_inv_init [OF assms(1,2)] by (rule colony_inv_reachable)
  with assms(4) obtain t where t: "pheromone c i j (m c) = Fin t" "tau_min c \<le> t"
    unfolding colony_inv_def by blast
  from reachable_fields [OF assms(3)] colony_init_Inr [OF assms(1)]
  have "tau_min c = tm \<and> m c = pm" by simp
  with t show ?thesis by simp
qed

lemma deposit_pheromone_total:
  assumes "0 < rows c" and "0 < cols c"
  shows "\<exists>res. deposit_pheromone r c a = Inr res"
proof (cases "get_max_probability_pos c (update_memory c a) (order r)")
  case None
  then show ?thesis by (simp add: deposit_pheromone_None relocate_ok [OF assms])
next
  case (Some xy)
  obtain x y where "xy = (x, y)" by (cases xy)
  with Some have sel: "get_max_probability_pos c (update_memory c a) (order r) = Some (x, y)"
    by simp
  show ?thesis
  proof (cases "np_ge (intensities c x y) (Fin (b c))")
    case True
    then show ?thesis by (simp add: deposit_pheromone_move [OF sel])
  next
    case False
    then show ?thesis by (simp add: deposit_pheromone_below [OF sel] relocate_ok [OF assms])
  qed
qed

lemma ant_step_total:
  assumes "0 < rows c" and "0 < cols c"
  shows "\<exists>c'. ant_step k r c = Inr c'"
proof -
  from deposit_pheromone_total [OF assms] obtain res where
    "deposit_pheromone r c (ants c ! k) = Inr res" ..
  then show ?thesis by (cases res) (simp add: ant_step_def)
qed

lemma strip_built_steps:
  "ant_step 0 plain_rnd strip_built = Inr (projr (ant_step 0 plain_rnd strip_built))"
proof -
  have "\<exists>c'. ant_step 0 plain_rnd strip_built = Inr c'"
    by (rule ant_step_total) (simp_all add: built_fields)
  then show ?thesis by auto
qed

lemma strip_built_ants: "ants strip_built = [\<lparr>row = 0, col = 2, pos_memory = [], special = True\<rparr>]"
  by (simp add: strip_built_def)

theorem total_layer_at_least_tau_min_witness:
  "colony_init (\<lambda>_. (0, 2)) 1 5 strip_img 1 (1 / 10) 2 2 (1 / 10000) (1 / 20) 1 1
     = Some (Inr strip_built)
   \<and> (1::nat) \<le> 2
   \<and> reachable_from strip_built (adjust_pheromone (projr (ant_step 0 plain_rnd strip_built)))
   \<and> in_bounds (adjust_pheromone (projr (ant_step 0 plain_rnd strip_built))) (0, 1)
   \<and> (\<exists>t. pheromone (adjust_pheromone (projr (ant_step 0 plain_rnd strip_built))) 0 1 2 = Fin t
          \<and> 1 / 10000 \<le> t)"
proof -
  let ?c = "adjust_pheromone (projr (ant_step 0 plain_rnd strip_built))"
  have r1: "reachable_from strip_built (projr (ant_step 0 plain_rnd strip_built))"
    by (rule reachable_from.step [OF reachable_from.start _ strip_built_steps])
       (simp add: strip_built_ants)
  then have r: "reachable_from strip_built ?c"
    by (rule reachable_from.consolidate)
  from reachable_fields [OF r] have "in_bounds ?c (0, 1) = in_bounds strip_built (0, 1)"
    by (intro in_bounds_cong) simp_all
  then have ib: "in_bounds ?c (0, 1)" by (simp add: in_bounds_def built_fields)
  have pm: "(1::nat) \<le> 2" by simp
  from total_layer_at_least_tau_min [OF colony_init_strip pm r ib]
  have "\<exists>t. pheromone ?c 0 1 2 = Fin t \<and> 1 / 10000 \<le> t" by auto
  with colony_init_strip r ib show ?thesis by simp
qed

section \<open>A colony without ants\<close>

lemma iteration_no_ants: "ants c = [] \<Longrightarrow> iteration r c = Inr (adjust_pheromone c)"
  by (simp add: iteration_def)

lemma zero_memory_adjust:
  assumes "zero_memory c"
  shows "zero_memory (adjust_pheromone c)"
  using assms unfolding zero_memory_def
  by (simp add: adjust_pheromone_pheromone adjust_pheromone_fields)

lemma zero_memory_total:
  assumes z: "zero_memory c" and idx: "1 \<le> m c" and ib: "in_bounds c (i, j)"
  shows "pheromone (adjust_pheromone c) i j (m c) =
           py_max (np_mul (Fin (1 - p c)) (pheromone c i j (m c))) (Fin (tau_min c))"
proof -
  have "\<forall>x \<in> set (map (pheromone c i j) [0..<m c]). x = Fin 0"
    using z ib unfolding zero_memory_def by auto
  then have s: "py_sum (map (pheromone c i j) [0..<m c]) = Fin 0" by (rule py_sum_zero)
  from idx have "next_index c \<noteq> m c" using next_index_valid [of c] by simp
  then show ?thesis
    using ib by (simp add: adjust_pheromone_pheromone cell_total_def s np_add_zero)
qed

lemma iterate_no_ants:
  assumes "ants c0 = []" and "zero_memory c0"
  shows "\<exists>c. iterate rs t c0 = Inr c \<and> ants c = [] \<and> zero_memory c
           \<and> rows c = rows c0 \<and> cols c = cols c0 \<and> m c = m c0 \<and> p c = p c0
           \<and> tau_min c = tau_min c0"
proof (induction t)
  case 0
  with assms show ?case by simp
next
  case (Suc t)
  then obtain c where c: "iterate rs t c0 = Inr c" "ants c = []" "zero_memory c"
    "rows c = rows c0" "cols c = cols c0" "m c = m c0" "p c = p c0" "tau_min c = tau_min c0"
    by blast
  have "iterate rs (Suc t) c0 = Inr (adjust_pheromone c)"
    by (simp add: c(1) iteration_no_ants [OF c(2)])
  with c zero_memory_adjust [OF c(3)] show ?case
    by (simp add: adjust_pheromone_fields)
qed

text \<open>
  C8. Take a colony that the construction has built without ants and with at least one
  memory layer. Every number of iterations returns, and the total of every cell of the
  grid after iteration \<open>t + 1\<close> is \<open>max((1 - p) * total, tau_min)\<close> of its total after
  iteration \<open>t\<close>.
\<close>

theorem pure_evaporation:
  assumes "colony_init draws nr nc pix 0 pe pm am tm itv al be = Some (Inr c0)"
    and "1 \<le> pm" and "in_bounds c0 (i, j)"
  shows "\<exists>c c'. iterate rs t c0 = Inr c \<and> iterate rs (Suc t) c0 = Inr c'
    \<and> pheromone c' i j pm = py_max (np_mul (Fin (1 - pe)) (pheromone c i j pm)) (Fin tm)"
proof -
  from colony_init_Inr [OF assms(1)]
  have f: "m c0 = pm" "tau_min c0 = tm" "p c0 = pe"
    and ph: "\<forall>i j k. pheromone c0 i j k = (if in_bounds c0 (i, j) \<and> k = pm then Fin tm else Fin 0)"
    and pl: "\<exists>pairs. placed nr nc 0 (ants c0) pairs"
    by blast+
  from pl have a0: "ants c0 = []" unfolding placed_def by auto
  have z0: "zero_memory c0" unfolding zero_memory_def using ph by (simp add: f)
  from iterate_no_ants [OF a0 z0, of rs t]
  obtain c where c: "iterate rs t c0 = Inr c" "ants c = []" "zero_memory c"
    "rows c = rows c0" "cols c = cols c0" "m c = m c0" "p c = p c0" "tau_min c = tau_min c0"
    by blast
  have nxt: "iterate rs (Suc t) c0 = Inr (adjust_pheromone c)"
    by (simp add: c(1) iteration_no_ants [OF c(2)])
  have "in_bounds c (i, j) = in_bounds c0 (i, j)"
    by (rule in_bounds_cong) (simp_all add: c)
  with assms(3) have ib: "in_bounds c (i, j)" by simp
  have "1 \<le> m c" using assms(2) by (simp add: c f)
  from zero_memory_total [OF c(3) this ib]
  have "pheromone (adjust_pheromone c) i j pm =
           py_max (np_mul (Fin (1 - pe)) (pheromone c i j pm)) (Fin tm)"
    by (simp add: c f)
  with c(1) nxt show ?thesis by blast
qed

theorem pure_evaporation_witness:
  "colony_init (\<lambda>_. (0, 0)) 1 5 (\<lambda>_ _. 0) 0 (1 / 10) 2 2 (1 / 10000) (1 / 20) 1 1
     = Some (Inr dark_built)
   \<and> (1::nat) \<le> 2 \<and> in_bounds dark_built (0, 1)
   \<and> (\<exists>c c'. iterate (\<lambda>_ _. plain_rnd) 3 dark_built = Inr c
         \<and> iterate (\<lambda>_ _. plain_rnd) (Suc 3) dark_built = Inr c'
         \<and> pheromone c' 0 1 2 = py_max (np_mul (Fin (1 - 1 / 10)) (pheromone c 0 1 2))
                                    (Fin (1 / 10000)))"
proof -
  have ib: "in_bounds dark_built (0, 1)" by (simp add: in_bounds_def built_fields)
  have pm: "(1::nat) \<le> 2" by simp
  from pure_evaporation [OF colony_init_dark pm ib, of "\<lambda>_ _. plain_rnd" 3]
    colony_init_dark ib
  show ?thesis by simp
qed

section \<open>Weights that sum to zero\<close>

lemma np_eq_NaN_right: "\<not> np_eq x NaN"
  by (cases x) simp_all

lemma dict_set_NaN: "dict_set d NaN v = d @ [(NaN, v)]"
  by (induction d) (auto simp: np_eq_NaN_right)

lemma foldl_dict_set_NaN:
  "\<forall>kv \<in> set kvs. fst kv = NaN \<Longrightarrow>
   foldl (\<lambda>d kv. dict_set d (fst kv) (snd kv)) d kvs = d @ kvs"
proof (induction kvs arbitrary: d)
  case Nil
  show ?case by simp
next
  case (Cons kv kvs)
  then have "fst kv = NaN" by simp
  then have "dict_set d (fst kv) (snd kv) = d @ [kv]"
    by (cases kv) (simp add: dict_set_NaN)
  with Cons show ?case by simp
qed

lemma dict_zip_NaN: "\<forall>k \<in> set ks. k = NaN \<Longrightarrow> dict_zip ks vs = zip ks vs"
proof -
  assume "\<forall>k \<in> set ks. k = NaN"
  then have "\<forall>kv \<in> set (zip ks vs). fst kv = NaN"
    by (auto dest: set_zip_leftD)
  from foldl_dict_set_NaN [OF this, of "[]"] show ?thesis by (simp add: dict_zip_def)
qed

lemma run_ascending_NaN: "\<forall>e \<in> set xs. fst e = NaN \<Longrightarrow> run_ascending prev xs = length xs"
  by (induction xs arbitrary: prev) (simp_all add: key_lt_def)

lemma count_run_NaN:
  assumes "\<forall>e \<in> set xs. fst e = NaN"
  shows "count_run xs = (length xs, False)"
proof (cases xs)
  case Nil
  then show ?thesis by simp
next
  case (Cons x0 ys)
  show ?thesis
  proof (cases ys)
    case Nil
    with Cons show ?thesis by simp
  next
    case (Cons x1 zs)
    with \<open>xs = x0 # ys\<close> have xs: "xs = x0 # x1 # zs" by simp
    with assms have "fst x1 = NaN" and "\<forall>e \<in> set zs. fst e = NaN" by simp_all
    then show ?thesis by (simp add: xs key_lt_def run_ascending_NaN)
  qed
qed

lemma sort_reverse_NaN: "\<forall>e \<in> set es. fst e = NaN \<Longrightarrow> sort_reverse es = es"
proof -
  assume "\<forall>e \<in> set es. fst e = NaN"
  then have "\<forall>e \<in> set (rev es). fst e = NaN" by simp
  then have "count_run (rev es) = (length (rev es), False)" by (rule count_run_NaN)
  then show ?thesis by (simp add: sort_reverse_def Let_def binarysort_def)
qed

lemma filter_zip_snd:
  "length ks = length vs \<Longrightarrow>
   map snd (filter (\<lambda>e. P (snd e)) (zip ks vs)) = filter P vs"
  by (induction ks vs rule: list_induct2) simp_all

lemma ant_max_NaN:
  assumes "\<forall>k \<in> set ks. k = NaN" and "length ks = length vs"
  shows "ant_max a (dict_zip ks vs) =
     (case filter (\<lambda>xy. xy \<notin> set (pos_memory a)) vs of [] \<Rightarrow> None | xy # _ \<Rightarrow> Some xy)"
proof -
  have "\<forall>e \<in> set (zip ks vs). fst e = NaN"
    using assms(1) by (auto dest: set_zip_leftD)
  then have s: "sort_reverse (dict_zip ks vs) = zip ks vs"
    by (simp add: dict_zip_NaN [OF assms(1)] sort_reverse_NaN)
  have e: "filter (\<lambda>xy. xy \<notin> set (pos_memory a)) vs
          = map snd (filter (\<lambda>e. snd e \<notin> set (pos_memory a)) (zip ks vs))"
    using assms(2) by (rule filter_zip_snd [symmetric])
  show ?thesis
    unfolding ant_max_def s e
    by (cases "filter (\<lambda>e. snd e \<notin> set (pos_memory a)) (zip ks vs)") simp_all
qed

lemma zero_weights_selection:
  assumes "\<forall>xy \<in> set (positions_of c a ds). index_probability c xy = Fin 0"
  shows "py_sum (fst (get_index_probabilities c a ds)) = Fin 0"
    and "get_max_probability_pos c a ds =
     (case filter (\<lambda>xy. xy \<notin> set (pos_memory a)) (positions_of c a ds) of
        [] \<Rightarrow> None | xy # _ \<Rightarrow> Some xy)"
proof -
  let ?ps = "positions_of c a ds"
  let ?ns = "map (index_probability c) ?ps"
  have z: "\<forall>x \<in> set ?ns. x = Fin 0" using assms by auto
  then have s: "py_sum ?ns = Fin 0" by (rule py_sum_zero)
  then show "py_sum (fst (get_index_probabilities c a ds)) = Fin 0"
    by (simp add: get_index_probabilities_def)
  have "\<forall>k \<in> set (map (\<lambda>x. np_div x (py_sum ?ns)) ?ns). k = NaN"
    using z by (auto simp: s)
  from ant_max_NaN [OF this, of ?ps a]
  show "get_max_probability_pos c a ds =
     (case filter (\<lambda>xy. xy \<notin> set (pos_memory a)) ?ps of [] \<Rightarrow> None | xy # _ \<Rightarrow> Some xy)"
    by (simp add: get_max_probability_pos_def get_index_probabilities_def Let_def)
qed

lemma foldl_np_add_zero:
  "\<forall>w \<in> set ws. \<exists>v. w = Fin v \<and> 0 \<le> v \<Longrightarrow> 0 \<le> u \<Longrightarrow>
   foldl np_add (Fin u) ws = Fin 0 \<Longrightarrow> u = 0 \<and> (\<forall>w \<in> set ws. w = Fin 0)"
proof (induction ws arbitrary: u)
  case Nil
  then show ?case by simp
next
  case (Cons w ws)
  from Cons.prems(1) obtain v where v: "w = Fin v" "0 \<le> v" by auto
  from Cons.prems(3) v have "foldl np_add (Fin (u + v)) ws = Fin 0" by simp
  moreover have "0 \<le> u + v" using Cons.prems(2) v(2) by simp
  moreover have "\<forall>w \<in> set ws. \<exists>v. w = Fin v \<and> 0 \<le> v" using Cons.prems(1) by simp
  ultimately have "u + v = 0 \<and> (\<forall>w \<in> set ws. w = Fin 0)" using Cons.IH by blast
  with Cons.prems(2) v show ?case by simp
qed

lemma py_sum_zero_nonneg:
  "\<forall>w \<in> set ws. \<exists>v. w = Fin v \<and> 0 \<le> v \<Longrightarrow> py_sum ws = Fin 0 \<Longrightarrow> \<forall>w \<in> set ws. w = Fin 0"
  unfolding py_sum_def using foldl_np_add_zero [of ws 0] by simp

text \<open>
  C3, as amended. Take a step in which the weights of the candidates are finite and not
  negative, and sum to zero. The step returns. All probabilities are \<open>nan\<close>, and the
  selection returns the first candidate, in the order of enumeration, that is not in the
  memory of the ant, or no candidate when there is none. That candidate is put to the
  threshold test like any other: if its intensity is at least \<open>b\<close> the ant moves to it
  and deposits; if it is below \<open>b\<close>, or if there is no candidate, the ant goes to the
  coordinate that \<open>randrange\<close> draws and the pheromone array is left as it is. So the ant
  is relocated without a deposit whenever the intensity of every candidate is below \<open>b\<close>.
\<close>

theorem zero_weights_step:
  assumes "0 < rows c" and "0 < cols c"
    and "\<forall>w \<in> set (fst (get_index_probabilities c (update_memory c a) (order r))).
           \<exists>v. w = Fin v \<and> 0 \<le> v"
    and "py_sum (fst (get_index_probabilities c (update_memory c a) (order r))) = Fin 0"
  shows "(\<exists>res. deposit_pheromone r c a = Inr res)
    \<and> get_max_probability_pos c (update_memory c a) (order r) =
        (case filter (\<lambda>xy. xy \<notin> set (pos_memory (update_memory c a)))
                (positions_of c (update_memory c a) (order r)) of
           [] \<Rightarrow> None | xy # _ \<Rightarrow> Some xy)
    \<and> deposit_pheromone r c a =
        (case filter (\<lambda>xy. xy \<notin> set (pos_memory (update_memory c a)))
                (positions_of c (update_memory c a) (order r)) of
           [] \<Rightarrow>
             Inr ((update_memory c a)\<lparr>row := int (raw_row r mod rows c),
                                        col := int (raw_col r mod cols c)\<rparr>,
                  pheromone c)
         | (x, y) # _ \<Rightarrow>
             if np_ge (intensities c x y) (Fin (b c))
             then Inr ((update_memory c a)\<lparr>row := x, col := y\<rparr>,
                       (pheromone c)(x := (pheromone c x)(y := (pheromone c x y)
                          (memory_index c := intensities c x y))))
             else Inr ((update_memory c a)\<lparr>row := int (raw_row r mod rows c),
                                             col := int (raw_col r mod cols c)\<rparr>,
                       pheromone c))
    \<and> ((\<forall>xy \<in> set (positions_of c (update_memory c a) (order r)).
           \<not> np_ge (intensities c (fst xy) (snd xy)) (Fin (b c)))
       \<longrightarrow> deposit_pheromone r c a =
             Inr ((update_memory c a)\<lparr>row := int (raw_row r mod rows c),
                                        col := int (raw_col r mod cols c)\<rparr>,
                  pheromone c))"
proof -
  let ?a = "update_memory c a"
  let ?ps = "positions_of c ?a (order r)"
  let ?free = "filter (\<lambda>xy. xy \<notin> set (pos_memory ?a)) ?ps"
  let ?away = "Inr (?a\<lparr>row := int (raw_row r mod rows c), col := int (raw_col r mod cols c)\<rparr>,
                  pheromone c)"
  from py_sum_zero_nonneg [OF assms(3,4)]
  have zero: "\<forall>xy \<in> set ?ps. index_probability c xy = Fin 0"
    by (simp add: get_index_probabilities_def)
  have 1: "\<exists>res. deposit_pheromone r c a = Inr res"
    using assms(1,2) by (rule deposit_pheromone_total)
  have 2: "get_max_probability_pos c ?a (order r) =
        (case ?free of [] \<Rightarrow> None | xy # _ \<Rightarrow> Some xy)"
    using zero by (rule zero_weights_selection(2))
  have 3: "deposit_pheromone r c a =
        (case ?free of
           [] \<Rightarrow> ?away
         | (x, y) # _ \<Rightarrow>
             if np_ge (intensities c x y) (Fin (b c))
             then Inr (?a\<lparr>row := x, col := y\<rparr>,
                       (pheromone c)(x := (pheromone c x)(y := (pheromone c x y)
                          (memory_index c := intensities c x y))))
             else ?away)"
  proof (cases ?free)
    case Nil
    with 2 have "get_max_probability_pos c ?a (order r) = None" by simp
    then show ?thesis
      by (simp add: Nil deposit_pheromone_None relocate_ok [OF assms(1,2)])
  next
    case (Cons xy rest)
    obtain x y where xy: "xy = (x, y)" by (cases xy)
    from 2 Cons xy have sel: "get_max_probability_pos c ?a (order r) = Some (x, y)" by simp
    show ?thesis
    proof (cases "np_ge (intensities c x y) (Fin (b c))")
      case True
      with deposit_pheromone_move [OF sel True] show ?thesis by (simp add: Cons xy)
    next
      case False
      with deposit_pheromone_below [OF sel False] show ?thesis
        by (simp add: Cons xy relocate_ok [OF assms(1,2)])
    qed
  qed
  have 4: "deposit_pheromone r c a = ?away"
    if h: "\<forall>xy \<in> set ?ps. \<not> np_ge (intensities c (fst xy) (snd xy)) (Fin (b c))"
  proof (cases "get_max_probability_pos c ?a (order r)")
    case None
    then show ?thesis
      by (simp add: deposit_pheromone_None relocate_ok [OF assms(1,2)])
  next
    case (Some xy)
    obtain x y where xy: "xy = (x, y)" by (cases xy)
    with Some have sel: "get_max_probability_pos c ?a (order r) = Some (x, y)" by simp
    from get_max_probability_pos_Some [OF sel] have "(x, y) \<in> set ?ps" by blast
    with h have "\<not> np_ge (intensities c x y) (Fin (b c))" by force
    then show ?thesis
      by (simp add: deposit_pheromone_below [OF sel] relocate_ok [OF assms(1,2)])
  qed
  from 1 2 3 4 show ?thesis by blast
qed

theorem zero_weights_step_witness:
  "0 < rows strip \<and> 0 < cols strip
   \<and> get_index_probabilities strip (update_memory strip (ant_at (0, 1))) (order plain_rnd)
       = ([Fin 0, Fin 0], [(0, 2), (0, 0)])
   \<and> py_sum [Fin 0, Fin 0] = Fin 0
   \<and> \<not> np_ge (intensities strip 0 2) (Fin (b strip))
   \<and> \<not> np_ge (intensities strip 0 0) (Fin (b strip))
   \<and> get_max_probability_pos strip (update_memory strip (ant_at (0, 1))) (order plain_rnd)
       = Some (0, 2)
   \<and> deposit_pheromone plain_rnd strip (ant_at (0, 1)) =
       Inr (\<lparr>row = 0, col = 0, pos_memory = [(0, 1)], special = False\<rparr>, pheromone strip)"
proof -
  have p: "0 < rows strip" "0 < cols strip"
    by (simp_all add: strip_def)
  have low: "\<not> np_ge (intensities strip 0 2) (Fin (b strip))"
    "\<not> np_ge (intensities strip 0 0) (Fin (b strip))"
    by (simp_all add: strip_def)
  have g: "get_index_probabilities strip (update_memory strip (ant_at (0, 1))) (order plain_rnd)
       = ([Fin 0, Fin 0], [(0, 2), (0, 0)])"
    by (simp add: selection_defs strip_def plain_rnd_def ant_at_def)
  have w: "\<forall>w \<in> set (fst (get_index_probabilities strip (update_memory strip (ant_at (0, 1)))
              (order plain_rnd))). \<exists>v. w = Fin v \<and> 0 \<le> v"
    by (simp add: g)
  have s: "py_sum (fst (get_index_probabilities strip (update_memory strip (ant_at (0, 1)))
              (order plain_rnd))) = Fin 0"
    by (simp add: g py_sum_def)
  have ps: "positions_of strip (update_memory strip (ant_at (0, 1))) (order plain_rnd)
       = [(0, 2), (0, 0)]"
    using g by (simp add: get_index_probabilities_def)
  have mem: "pos_memory (update_memory strip (ant_at (0, 1))) = [(0, 1)]"
    by (simp add: update_memory_def ant_at_def strip_def)
  have t: "\<forall>xy \<in> set (positions_of strip (update_memory strip (ant_at (0, 1))) (order plain_rnd)).
              \<not> np_ge (intensities strip (fst xy) (snd xy)) (Fin (b strip))"
    unfolding ps using low by simp
  note z = zero_weights_step [OF p w s]
  from z have sel: "get_max_probability_pos strip (update_memory strip (ant_at (0, 1)))
       (order plain_rnd) = Some (0, 2)"
    unfolding ps mem by simp
  from z t
  have "deposit_pheromone plain_rnd strip (ant_at (0, 1)) =
             Inr ((update_memory strip (ant_at (0, 1)))
                    \<lparr>row := int (raw_row plain_rnd mod rows strip),
                     col := int (raw_col plain_rnd mod cols strip)\<rparr>,
                  pheromone strip)"
    by blast
  then have d: "deposit_pheromone plain_rnd strip (ant_at (0, 1)) =
       Inr (\<lparr>row = 0, col = 0, pos_memory = [(0, 1)], special = False\<rparr>, pheromone strip)"
    by (simp add: update_memory_def ant_at_def plain_rnd_def strip_def)
  from p low g sel d show ?thesis by (simp add: py_sum_def)
qed

text \<open>
  C3 as stated has the ant relocated whenever the weights sum to zero. The code has no
  such test: the probabilities are \<open>nan\<close>, a candidate is selected all the same, and
  the threshold decides. In the colony \<open>flat\<close>, where \<open>b\<close> is 0, the only candidate
  \<open>(0, 1)\<close> has weight 0 and intensity 0: the ant moves to \<open>(0, 1)\<close> and writes the
  intensity there, where a relocation would have put it at the drawn coordinate
  \<open>(0, 0)\<close>.
\<close>

theorem zero_weights_move_counterexample:
  "get_index_probabilities flat (update_memory flat (ants flat ! 0)) (order plain_rnd)
     = ([Fin 0], [(0, 1)])
   \<and> py_sum [Fin 0] = Fin 0
   \<and> deposit_pheromone plain_rnd flat (ants flat ! 0) =
       Inr (\<lparr>row = 0, col = 1, pos_memory = [(0, 0)], special = True\<rparr>,
            (pheromone flat)(0 := (pheromone flat 0)(1 := (pheromone flat 0 1)(0 := Fin 0))))
   \<and> relocate flat plain_rnd (update_memory flat (ants flat ! 0)) =
       Inr \<lparr>row = 0, col = 0, pos_memory = [(0, 0)], special = True\<rparr>"
proof -
  have g: "get_index_probabilities flat (update_memory flat (ants flat ! 0)) (order plain_rnd)
     = ([Fin 0], [(0, 1)])"
    by (simp add: selection_defs flat_def plain_rnd_def)
  have sel: "get_max_probability_pos flat (update_memory flat (ants flat ! 0)) (order plain_rnd)
     = Some (0, 1)"
    by (simp add: selection_defs flat_def plain_rnd_def)
  have ge: "np_ge (intensities flat 0 1) (Fin (b flat))"
    by (simp add: flat_def)
  have d: "deposit_pheromone plain_rnd flat (ants flat ! 0) =
       Inr (\<lparr>row = 0, col = 1, pos_memory = [(0, 0)], special = True\<rparr>,
            (pheromone flat)(0 := (pheromone flat 0)(1 := (pheromone flat 0 1)(0 := Fin 0))))"
    using deposit_pheromone_move [OF sel ge] by (simp add: flat_def update_memory_def)
  have r: "relocate flat plain_rnd (update_memory flat (ants flat ! 0)) =
       Inr \<lparr>row = 0, col = 0, pos_memory = [(0, 0)], special = True\<rparr>"
    by (simp add: relocate_def randrange_def flat_def update_memory_def plain_rnd_def)
  from g d r show ?thesis by (simp add: py_sum_def)
qed

section \<open>The concrete colonies are states of the program\<close>

text \<open>The colonies used as examples are not arbitrary records: each one is what the
  constructor returns on a small image for some draws of the placement loop, or what one
  ant step makes of such a colony.\<close>

lemma strip_intensities:
  assumes "in_bounds strip (i, j)"
  shows "pixel_intensity strip i j = (if i = 0 \<and> (j = 1 \<or> j = 3) then Fin 1 else Fin 0)"
proof -
  from assms have i: "i = 0" and j: "j = 0 \<or> j = 1 \<or> j = 2 \<or> j = 3 \<or> j = 4"
    by (auto simp: in_bounds_def strip_def)
  from j show ?thesis
    by (elim disjE) (simp_all add: i pixel_intensity_def strip_def strip_img_def)
qed

lemma strip_built_eq: "strip_built = strip"
proof -
  define c0 where "c0 = \<lparr>alpha = 1, beta = 1, rows = 1, cols = 5, img = strip_img, i_max = 4,
         intensities = (\<lambda>_ _. Fin 0), ants = [], pheromone = (\<lambda>_ _ _. Fin 0), m = 2,
         ant_mem = 2, tau_min = 1 / 10000, p = 1 / 10, b = 1 / 20, memory_index = 0\<rparr>"
  have sb: "strip_built = (init_total (set_pixel_intensities c0))
       \<lparr>ants := [\<lparr>row = 0, col = 2, pos_memory = [], special = True\<rparr>]\<rparr>"
    by (simp add: strip_built_def c0_def)
  have f0: "rows c0 = 1" "cols c0 = 5" "img c0 = strip_img" "i_max c0 = 4" "m c0 = 2"
    "ant_mem c0 = 2" "tau_min c0 = 1 / 10000" "p c0 = 1 / 10" "b c0 = 1 / 20" "alpha c0 = 1"
    "beta c0 = 1" "memory_index c0 = 0" "pheromone c0 = (\<lambda>_ _ _. Fin 0)"
    "intensities c0 = (\<lambda>_ _. Fin 0)"
    by (simp_all add: c0_def)
  have fs: "rows strip = 1" "cols strip = 5" "img strip = strip_img" "i_max strip = 4"
    by (simp_all add: strip_def)
  have ib: "in_bounds c0 xy = in_bounds strip xy" for xy
    by (rule in_bounds_cong) (simp_all add: f0 fs)
  have ib2: "in_bounds (set_pixel_intensities c0) xy = in_bounds strip xy" for xy
    by (rule in_bounds_cong) (simp_all add: set_pixel_intensities_fields f0 fs)
  have pc: "pixel_intensity c0 i j = pixel_intensity strip i j" for i j
    by (rule pixel_intensity_cong) (simp_all add: f0 fs)
  have int: "intensities strip_built = intensities strip"
  proof (intro ext)
    fix i j
    have "intensities strip_built i j =
        (if in_bounds strip (i, j) then pixel_intensity strip i j else Fin 0)"
      by (simp add: sb init_total_fields set_pixel_intensities_at ib pc f0)
    also have "\<dots> = (if i = 0 \<and> (j = 1 \<or> j = 3) then Fin 1 else Fin 0)"
      by (auto simp: strip_intensities) (auto simp: in_bounds_def strip_def)
    finally show "intensities strip_built i j = intensities strip i j"
      by (simp add: strip_def)
  qed
  have ph: "pheromone strip_built = pheromone strip"
  proof (intro ext)
    fix i j k
    have "pheromone strip_built i j k =
        (if in_bounds strip (i, j) \<and> k = 2 then Fin (1 / 10000) else Fin 0)"
      by (simp add: sb init_total_at ib2 set_pixel_intensities_fields f0)
    then show "pheromone strip_built i j k = pheromone strip i j k"
      by (auto simp: in_bounds_def strip_def)
  qed
  show ?thesis
    by (rule colony.equality)
       (simp_all add: int ph,
        simp_all add: sb init_total_fields set_pixel_intensities_fields f0,
        simp_all add: strip_def)
qed

lemma colony_init_eq:
  assumes mx: "img_max nr nc pix = Inr (i_max c)"
    and pl: "place_ants nr nc draws n = Some (Inr (ants c, pairs, k))"
    and f: "rows c = nr" "cols c = nc" "img c = pix" "m c = pm" "ant_mem c = am" "tau_min c = tm"
      "p c = pe" "b c = itv" "alpha c = al" "beta c = be" "memory_index c = 0"
    and it: "\<And>i j. intensities c i j = (if in_bounds c (i, j) then pixel_intensity c i j else Fin 0)"
    and ph: "\<And>i j l. pheromone c i j l = (if in_bounds c (i, j) \<and> l = pm then Fin tm else Fin 0)"
  shows "colony_init draws nr nc pix n pe pm am tm itv al be = Some (Inr c)"
proof -
  define c0 where "c0 = \<lparr>alpha = al, beta = be, rows = nr, cols = nc, img = pix, i_max = i_max c,
                    intensities = (\<lambda>_ _. Fin 0), ants = [],
                    pheromone = (\<lambda>_ _ _. Fin 0), m = pm,
                    ant_mem = am, tau_min = tm,
                    p = pe, b = itv,
                    memory_index = 0\<rparr>"
  define c1 where "c1 = (init_total (set_pixel_intensities c0))\<lparr>ants := ants c\<rparr>"
  have init: "colony_init draws nr nc pix n pe pm am tm itv al be = Some (Inr c1)"
    by (simp add: colony_init_def mx pl Let_def c1_def c0_def)
  from colony_init_Inr [OF init]
  have g: "rows c1 = nr" "cols c1 = nc" "img c1 = pix" "m c1 = pm" "ant_mem c1 = am"
      "tau_min c1 = tm" "p c1 = pe" "b c1 = itv" "alpha c1 = al" "beta c1 = be"
      "memory_index c1 = 0"
    and it1: "\<forall>i j. intensities c1 i j = (if in_bounds c1 (i, j) then pixel_intensity c1 i j else Fin 0)"
    and ph1: "\<forall>i j l. pheromone c1 i j l = (if in_bounds c1 (i, j) \<and> l = pm then Fin tm else Fin 0)"
    by blast+
  have im: "i_max c1 = i_max c"
    by (simp add: c1_def init_total_fields set_pixel_intensities_fields c0_def)
  have an: "ants c1 = ants c" by (simp add: c1_def)
  have ib: "in_bounds c1 xy = in_bounds c xy" for xy
    by (rule in_bounds_cong) (simp_all add: f g)
  have pc: "pixel_intensity c1 i j = pixel_intensity c i j" for i j
    by (rule pixel_intensity_cong) (simp_all add: f g im)
  have "intensities c1 = intensities c"
    by (intro ext) (simp add: it1 it ib pc)
  moreover have "pheromone c1 = pheromone c"
    by (intro ext) (simp add: ph1 ph ib)
  ultimately have "c1 = c"
    by (intro colony.equality) (simp_all add: f g im an)
  with init show ?thesis by simp
qed

lemma colony_init_is_strip:
  "colony_init (\<lambda>_. (0, 2)) 1 5 strip_img 1 (1 / 10) 2 2 (1 / 10000) (1 / 20) 1 1
     = Some (Inr strip)"
  using colony_init_strip by (simp add: strip_built_eq)

lemma strip_fed_step: "ant_step 0 plain_rnd strip = Inr strip_fed"
  using strip_step by (simp add: strip_fed_def)

lemma ndindex_1_2: "ndindex (Suc 0) 2 = [(0, 0), (0, 1)]"
proof -
  have "[0..<2] = [0, 1::nat]" by (simp add: upt_rec)
  then show ?thesis by (simp add: ndindex_def)
qed

lemma flat_intensities: "pixel_intensity flat i j = Fin 0"
  by (simp add: pixel_intensity_def flat_def)

lemma colony_init_is_flat:
  "colony_init (\<lambda>_. (0, 0)) 1 2 (\<lambda>_ _. 5) 1 (1 / 10) 2 2 (1 / 10000) 0 1 1 = Some (Inr flat)"
proof (rule colony_init_eq [where pairs = "{(0, 0)}" and k = 1])
  show "img_max 1 2 (\<lambda>_ _. 5) = Inr (i_max flat)"
    by (simp add: img_max_def ndindex_1_2 flat_def)
  show "place_ants 1 2 (\<lambda>_. (0, 0)) 1 = Some (Inr (ants flat, {(0, 0)}, 1))"
    by (simp add: place_pair.simps randrange_def flat_def)
  show "intensities flat i j = (if in_bounds flat (i, j) then pixel_intensity flat i j else Fin 0)"
    for i j
    by (simp add: flat_intensities) (simp add: flat_def)
  show "pheromone flat i j l = (if in_bounds flat (i, j) \<and> l = 2 then Fin (1 / 10000) else Fin 0)"
    for i j l
    by (auto simp: in_bounds_def flat_def)
qed (simp_all add: flat_def)

lemma strip_taboo_step:
  "ant_step 0 drawn_rnd (strip\<lparr>ants := [\<lparr>row = 0, col = 1, pos_memory = [], special = True\<rparr>]\<rparr>)
     = Inr strip_taboo"
proof -
  let ?c = "strip\<lparr>ants := [\<lparr>row = 0, col = 1, pos_memory = [], special = True\<rparr>]\<rparr>"
  have sel: "get_max_probability_pos ?c (update_memory ?c (ants ?c ! 0)) (order drawn_rnd)
      = Some (0, 2)"
    by (simp add: selection_defs strip_def drawn_rnd_def)
  have lt: "\<not> np_ge (intensities ?c 0 2) (Fin (b ?c))"
    by (simp add: strip_def)
  have rel: "relocate ?c drawn_rnd (update_memory ?c (ants ?c ! 0)) =
      Inr \<lparr>row = 0, col = 2, pos_memory = [(0, 1)], special = True\<rparr>"
    by (simp add: relocate_def randrange_def update_memory_def strip_def drawn_rnd_def)
  have "deposit_pheromone drawn_rnd ?c (ants ?c ! 0) =
      Inr (\<lparr>row = 0, col = 2, pos_memory = [(0, 1)], special = True\<rparr>, pheromone ?c)"
    unfolding deposit_pheromone_below [OF sel lt] rel by simp
  then show ?thesis
    unfolding ant_step_def by (simp add: strip_taboo_def)
qed

lemma place_at_0_1: "place_ants 1 5 (\<lambda>_. (0, 1)) 1 =
    Some (Inr ([\<lparr>row = 0, col = 1, pos_memory = [], special = True\<rparr>], {(0, 1)}, 1))"
  by (simp add: place_pair.simps randrange_def)

lemma colony_init_strip_at_0_1:
  "colony_init (\<lambda>_. (0, 1)) 1 5 strip_img 1 (1 / 10) 2 2 (1 / 10000) (1 / 20) 1 1
     = Some (Inr (strip\<lparr>ants := [\<lparr>row = 0, col = 1, pos_memory = [], special = True\<rparr>]\<rparr>))"
  using place_at_0_1 img_max_strip
  by (simp add: colony_init_def Let_def strip_built_eq [symmetric] strip_built_def)

lemma dim_intensities:
  assumes "in_bounds strip_dim (i, j)"
  shows "pixel_intensity strip_dim i j =
     (if i = 0 \<and> j = 1 then Fin 1 else if i = 0 \<and> j = 3 then Fin (1 / 2) else Fin 0)"
proof -
  from assms have i: "i = 0" and j: "j = 0 \<or> j = 1 \<or> j = 2 \<or> j = 3 \<or> j = 4"
    by (auto simp: in_bounds_def strip_dim_def strip_def)
  from j show ?thesis
    by (elim disjE) (simp_all add: i pixel_intensity_def strip_dim_def strip_def dim_img_def)
qed

lemma colony_init_dim_at_0_1:
  "colony_init (\<lambda>_. (0, 1)) 1 5 dim_img 1 (1 / 10) 2 2 (1 / 10000) (3 / 4) 1 1
     = Some (Inr (strip_dim\<lparr>ants := [\<lparr>row = 0, col = 1, pos_memory = [], special = True\<rparr>]\<rparr>))"
proof (rule colony_init_eq [where pairs = "{(0, 1)}" and k = 1])
  let ?c = "strip_dim\<lparr>ants := [\<lparr>row = 0, col = 1, pos_memory = [], special = True\<rparr>]\<rparr>"
  show "img_max 1 5 dim_img = Inr (i_max ?c)"
    by (simp add: img_max_def ndindex_1_5 strip_dim_def strip_def dim_img_def)
  show "place_ants 1 5 (\<lambda>_. (0, 1)) 1 = Some (Inr (ants ?c, {(0, 1)}, 1))"
    using place_at_0_1 by simp
  have ib: "in_bounds ?c xy = in_bounds strip_dim xy" for xy
    by (rule in_bounds_cong) simp_all
  have pc: "pixel_intensity ?c i j = pixel_intensity strip_dim i j" for i j
    by (rule pixel_intensity_cong) simp_all
  show "intensities ?c i j = (if in_bounds ?c (i, j) then pixel_intensity ?c i j else Fin 0)"
    for i j
    unfolding ib pc
    by (auto simp: dim_intensities) (auto simp: in_bounds_def strip_dim_def strip_def)
  show "pheromone ?c i j l = (if in_bounds ?c (i, j) \<and> l = 2 then Fin (1 / 10000) else Fin 0)"
    for i j l
    by (auto simp: in_bounds_def strip_dim_def strip_def)
qed (simp_all add: strip_dim_def strip_def)

lemma strip_dim_step:
  "ant_step 0 drawn_rnd (strip_dim\<lparr>ants := [\<lparr>row = 0, col = 1, pos_memory = [], special = True\<rparr>]\<rparr>)
     = Inr strip_dim"
proof -
  let ?c = "strip_dim\<lparr>ants := [\<lparr>row = 0, col = 1, pos_memory = [], special = True\<rparr>]\<rparr>"
  have sel: "get_max_probability_pos ?c (update_memory ?c (ants ?c ! 0)) (order drawn_rnd)
      = Some (0, 2)"
    by (simp add: selection_defs strip_dim_def strip_def drawn_rnd_def)
  have lt: "\<not> np_ge (intensities ?c 0 2) (Fin (b ?c))"
    by (simp add: strip_dim_def strip_def)
  have rel: "relocate ?c drawn_rnd (update_memory ?c (ants ?c ! 0)) =
      Inr \<lparr>row = 0, col = 2, pos_memory = [(0, 1)], special = True\<rparr>"
    by (simp add: relocate_def randrange_def update_memory_def strip_dim_def strip_def drawn_rnd_def)
  have "deposit_pheromone drawn_rnd ?c (ants ?c ! 0) =
      Inr (\<lparr>row = 0, col = 2, pos_memory = [(0, 1)], special = True\<rparr>, pheromone ?c)"
    unfolding deposit_pheromone_below [OF sel lt] rel by simp
  then show ?thesis
    unfolding ant_step_def by (simp add: strip_dim_def)
qed

section \<open>Selection when no two probabilities are equal\<close>

lemma dict_set_fresh:
  "\<forall>e \<in> set d. \<not> np_eq (fst e) k \<Longrightarrow> dict_set d k v = d @ [(k, v)]"
  by (induction d) auto

lemma np_eq_Fin: "np_eq (Fin u) x \<longleftrightarrow> x = Fin u"
  by (cases x) auto

lemma foldl_dict_set_fresh:
  "distinct (map fst (d @ kvs)) \<Longrightarrow> \<forall>e \<in> set (d @ kvs). \<exists>u. fst e = Fin u \<Longrightarrow>
   foldl (\<lambda>d kv. dict_set d (fst kv) (snd kv)) d kvs = d @ kvs"
proof (induction kvs arbitrary: d)
  case Nil
  show ?case by simp
next
  case (Cons kv kvs)
  have "\<forall>e \<in> set d. \<not> np_eq (fst e) (fst kv)"
  proof
    fix e assume e: "e \<in> set d"
    with Cons.prems(2) obtain u where u: "fst e = Fin u" by auto
    from Cons.prems(1) have "fst kv \<notin> fst ` set d" by auto
    moreover from e have "fst e \<in> fst ` set d" by (rule imageI)
    ultimately have "fst e \<noteq> fst kv" by (metis)
    with u show "\<not> np_eq (fst e) (fst kv)" by (auto simp: np_eq_Fin)
  qed
  then have "dict_set d (fst kv) (snd kv) = d @ [kv]"
    by (simp add: dict_set_fresh)
  moreover have "foldl (\<lambda>d kv. dict_set d (fst kv) (snd kv)) (d @ [kv]) kvs = (d @ [kv]) @ kvs"
    using Cons.prems by (intro Cons.IH) simp_all
  ultimately show ?case by simp
qed

lemma dict_zip_distinct:
  assumes "distinct ks" and "\<forall>k \<in> set ks. \<exists>u. k = Fin u" and "length ks = length vs"
  shows "dict_zip ks vs = zip ks vs"
proof -
  have "map fst (zip ks vs) = ks" using assms(3) by simp
  then have "distinct (map fst ([] @ zip ks vs))" using assms(1) by simp
  moreover have "\<forall>e \<in> set ([] @ zip ks vs). \<exists>u. fst e = Fin u"
    using assms(2) by (auto dest: set_zip_leftD)
  ultimately show ?thesis
    unfolding dict_zip_def using foldl_dict_set_fresh [of "[]" "zip ks vs"] by simp
qed


lemma key_lt_key_of:
  "\<exists>u. fst e1 = Fin u \<Longrightarrow> \<exists>u. fst e2 = Fin u \<Longrightarrow> key_lt e1 e2 \<longleftrightarrow> key_of e1 < key_of e2"
  by (auto simp: key_lt_def key_of_def)

lemma finite_keys_Cons: "finite_keys (e # es) \<longleftrightarrow> (\<exists>u. fst e = Fin u) \<and> finite_keys es"
  by (simp add: finite_keys_def)

lemma run_ascending_sorted:
  "finite_keys (prev # xs) \<Longrightarrow> sorted (map key_of (prev # take (run_ascending prev xs) xs))"
proof (induction xs arbitrary: prev)
  case Nil
  show ?case by simp
next
  case (Cons x xs)
  from Cons.prems have f: "\<exists>u. fst prev = Fin u" "\<exists>u. fst x = Fin u" "finite_keys (x # xs)"
    by (simp_all add: finite_keys_Cons)
  show ?case
  proof (cases "key_lt x prev")
    case True
    then show ?thesis by simp
  next
    case False
    with f have le: "key_of prev \<le> key_of x" by (simp add: key_lt_key_of)
    from Cons.IH [OF f(3)] have s: "sorted (map key_of (x # take (run_ascending x xs) xs))" .
    then have "\<forall>y \<in> set (take (run_ascending x xs) xs). key_of x \<le> key_of y" by simp
    with le have "\<forall>y \<in> set (take (run_ascending x xs) xs). key_of prev \<le> key_of y" by force
    with s le False show ?thesis by simp
  qed
qed

lemma run_descending_sorted:
  "finite_keys (prev # xs) \<Longrightarrow>
   sorted (rev (map key_of (prev # take (run_descending prev xs) xs)))"
proof (induction xs arbitrary: prev)
  case Nil
  show ?case by simp
next
  case (Cons x xs)
  from Cons.prems have f: "\<exists>u. fst prev = Fin u" "\<exists>u. fst x = Fin u" "finite_keys (x # xs)"
    by (simp_all add: finite_keys_Cons)
  show ?case
  proof (cases "key_lt x prev")
    case False
    then show ?thesis by simp
  next
    case True
    with f have le: "key_of x \<le> key_of prev" by (simp add: key_lt_key_of)
    from Cons.IH [OF f(3)]
    have s: "sorted (rev (map key_of (x # take (run_descending x xs) xs)))" .
    then have "\<forall>y \<in> set (take (run_descending x xs) xs). key_of y \<le> key_of x"
      by (simp add: sorted_append)
    with le have "\<forall>y \<in> set (take (run_descending x xs) xs). key_of y \<le> key_of prev" by force
    with s le True show ?thesis by (simp add: sorted_append)
  qed
qed

lemma count_run_sorted:
  assumes "finite_keys xs" and "count_run xs = (n, desc)"
  shows "sorted (map key_of (if desc then rev (take n xs) else take n xs))"
proof (cases xs)
  case Nil
  with assms(2) show ?thesis by simp
next
  case (Cons x0 ys)
  show ?thesis
  proof (cases ys)
    case Nil
    with Cons assms(2) show ?thesis by auto
  next
    case (Cons x1 zs)
    with \<open>xs = x0 # ys\<close> have xs: "xs = x0 # x1 # zs" by simp
    from assms(1) have f: "\<exists>u. fst x0 = Fin u" "\<exists>u. fst x1 = Fin u" "finite_keys (x1 # zs)"
      by (simp_all add: xs finite_keys_Cons)
    show ?thesis
    proof (cases "key_lt x1 x0")
      case True
      with assms(2) have n: "n = Suc (Suc (run_descending x1 zs))" and d: desc
        by (simp_all add: xs)
      from True f have le: "key_of x1 \<le> key_of x0" by (simp add: key_lt_key_of)
      from run_descending_sorted [OF f(3)]
      have s: "sorted (rev (map key_of (x1 # take (run_descending x1 zs) zs)))" .
      then have "\<forall>y \<in> set (take (run_descending x1 zs) zs). key_of y \<le> key_of x1"
        by (simp add: sorted_append)
      with le have "\<forall>y \<in> set (take (run_descending x1 zs) zs). key_of y \<le> key_of x0" by force
      with s le show ?thesis by (simp add: xs n d sorted_append rev_map)
    next
      case False
      with assms(2) have n: "n = Suc (Suc (run_ascending x1 zs))" and d: "\<not> desc"
        by (simp_all add: xs)
      from False f have le: "key_of x0 \<le> key_of x1" by (simp add: key_lt_key_of)
      from run_ascending_sorted [OF f(3)]
      have s: "sorted (map key_of (x1 # take (run_ascending x1 zs) zs))" .
      then have "\<forall>y \<in> set (take (run_ascending x1 zs) zs). key_of x1 \<le> key_of y" by simp
      with le have "\<forall>y \<in> set (take (run_ascending x1 zs) zs). key_of x0 \<le> key_of y" by force
      with s le show ?thesis by (simp add: xs n d)
    qed
  qed
qed

lemma sorted_keys_nth:
  "sorted (map key_of pre) \<Longrightarrow> i \<le> j \<Longrightarrow> j < length pre \<Longrightarrow>
   key_of (pre ! i) \<le> key_of (pre ! j)"
  using sorted_nth_mono [of "map key_of pre" i j] by simp

lemma bisect_place:
  "sorted (map key_of pre) \<Longrightarrow> finite_keys (pivot # pre) \<Longrightarrow> l \<le> r \<Longrightarrow> r \<le> length pre \<Longrightarrow>
   (\<forall>i < l. key_of (pre ! i) \<le> key_of pivot) \<Longrightarrow>
   (\<forall>i. r \<le> i \<and> i < length pre \<longrightarrow> key_of pivot < key_of (pre ! i)) \<Longrightarrow>
   bisect pivot pre l r \<le> length pre
   \<and> (\<forall>i < bisect pivot pre l r. key_of (pre ! i) \<le> key_of pivot)
   \<and> (\<forall>i. bisect pivot pre l r \<le> i \<and> i < length pre \<longrightarrow> key_of pivot < key_of (pre ! i))"
proof (induction pivot pre l r rule: bisect.induct)
  case (1 pivot pre l r)
  let ?mid = "l + (r - l) div 2"
  show ?case
  proof (cases "l < r")
    case False
    then have "bisect pivot pre l r = l" by (simp add: bisect.simps)
    moreover from False "1.prems"(3) have "l = r" by simp
    ultimately show ?thesis using "1.prems"(4,5,6) by simp
  next
    case True
    then have mid: "l \<le> ?mid" "?mid < r" by simp_all
    with "1.prems"(4) have len: "?mid < length pre" by simp
    then have "pre ! ?mid \<in> set pre" by simp
    with "1.prems"(2) have f: "\<exists>u. fst pivot = Fin u" "\<exists>u. fst (pre ! ?mid) = Fin u"
      by (simp_all add: finite_keys_def)
    show ?thesis
    proof (cases "key_lt pivot (pre ! ?mid)")
      case lt: True
      then have e: "bisect pivot pre l r = bisect pivot pre l ?mid"
        using True by (subst bisect.simps) simp
      from lt f have k: "key_of pivot < key_of (pre ! ?mid)" by (simp add: key_lt_key_of)
      have up: "\<forall>i. ?mid \<le> i \<and> i < length pre \<longrightarrow> key_of pivot < key_of (pre ! i)"
      proof (intro allI impI)
        fix i assume "?mid \<le> i \<and> i < length pre"
        then have "key_of (pre ! ?mid) \<le> key_of (pre ! i)"
          using "1.prems"(1) by (simp add: sorted_keys_nth)
        with k show "key_of pivot < key_of (pre ! i)" by simp
      qed
      have "?mid \<le> length pre" using len by simp
      from "1.IH"(1) [OF True lt "1.prems"(1,2) mid(1) this "1.prems"(5) up]
      show ?thesis unfolding e .
    next
      case ge: False
      then have e: "bisect pivot pre l r = bisect pivot pre (Suc ?mid) r"
        using True by (subst bisect.simps) simp
      from ge f have k: "key_of (pre ! ?mid) \<le> key_of pivot" by (simp add: key_lt_key_of)
      have low: "\<forall>i < Suc ?mid. key_of (pre ! i) \<le> key_of pivot"
      proof (intro allI impI)
        fix i assume "i < Suc ?mid"
        then have "key_of (pre ! i) \<le> key_of (pre ! ?mid)"
          using "1.prems"(1) len by (simp add: sorted_keys_nth)
        with k show "key_of (pre ! i) \<le> key_of pivot" by simp
      qed
      have "Suc ?mid \<le> r" using mid(2) by simp
      from "1.IH"(2) [OF True ge "1.prems"(1,2) this "1.prems"(4) low "1.prems"(6)]
      show ?thesis unfolding e .
    qed
  qed
qed

lemma binary_insert_sorted:
  assumes "sorted (map key_of pre)" and "finite_keys (pivot # pre)"
  shows "sorted (map key_of (binary_insert pre pivot))"
proof -
  let ?k = "bisect pivot pre 0 (length pre)"
  from bisect_place [OF assms, of 0 "length pre"]
  have k: "?k \<le> length pre" "\<forall>i < ?k. key_of (pre ! i) \<le> key_of pivot"
    "\<forall>i. ?k \<le> i \<and> i < length pre \<longrightarrow> key_of pivot < key_of (pre ! i)"
    by simp_all
  have lo: "key_of x \<le> key_of pivot" if "x \<in> set (take ?k pre)" for x
  proof -
    from that obtain i where "i < length (take ?k pre)" "x = take ?k pre ! i"
      by (auto simp: in_set_conv_nth)
    then have "i < ?k" "x = pre ! i" by simp_all
    with k(2) show ?thesis by simp
  qed
  have hi: "key_of pivot \<le> key_of y" if "y \<in> set (drop ?k pre)" for y
  proof -
    from that obtain i where i: "i < length (drop ?k pre)" "y = drop ?k pre ! i"
      by (auto simp: in_set_conv_nth)
    then have "?k \<le> ?k + i \<and> ?k + i < length pre" "y = pre ! (?k + i)" using k(1) by simp_all
    with k(3) show ?thesis by (simp add: less_imp_le)
  qed
  have "sorted (map key_of (take ?k pre))" "sorted (map key_of (drop ?k pre))"
    using assms(1) by (simp_all add: take_map [symmetric] drop_map [symmetric] sorted_wrt_take sorted_wrt_drop)
  moreover have "key_of x \<le> key_of y" if "x \<in> set (take ?k pre)" "y \<in> set (drop ?k pre)" for x y
    using lo [OF that(1)] hi [OF that(2)] by simp
  ultimately show ?thesis
    using lo hi by (auto simp: binary_insert_def Let_def sorted_append)
qed

lemma finite_keys_binary_insert:
  "finite_keys (binary_insert pre pivot) \<longleftrightarrow> finite_keys (pivot # pre)"
  by (simp add: finite_keys_def set_binary_insert)

lemma binarysort_sorted:
  "sorted (map key_of run) \<Longrightarrow> finite_keys (run @ rest) \<Longrightarrow>
   sorted (map key_of (binarysort run rest))"
proof (induction rest arbitrary: run)
  case Nil
  then show ?case by (simp add: binarysort_def)
next
  case (Cons x rest)
  from Cons.prems(2) have f: "finite_keys (x # run)" "finite_keys (binary_insert run x @ rest)"
    by (auto simp: finite_keys_def set_binary_insert)
  from binary_insert_sorted [OF Cons.prems(1) f(1)]
  have "sorted (map key_of (binarysort (binary_insert run x) rest))"
    using f(2) by (rule Cons.IH)
  then show ?case by (simp add: binarysort_def)
qed

lemma sort_reverse_sorted:
  assumes "finite_keys es"
  shows "sorted (map key_of (rev (sort_reverse es)))"
proof (cases "length es < 2")
  case True
  then have "es = [] \<or> (\<exists>e. es = [e])" by (cases es) auto
  moreover have "sort_reverse es = es" using True by (simp add: sort_reverse_def)
  ultimately show ?thesis by auto
next
  case False
  obtain n desc where c: "count_run (rev es) = (n, desc)" by (cases "count_run (rev es)")
  let ?xs = "rev es"
  let ?run = "if desc then rev (take n ?xs) else take n ?xs"
  have f: "finite_keys ?xs" using assms by (simp add: finite_keys_def)
  have "set (take n ?xs) \<union> set (drop n ?xs) = set ?xs"
    by (metis append_take_drop_id set_append)
  then have "set ?run \<union> set (drop n ?xs) = set ?xs" by simp
  then have "finite_keys (?run @ drop n ?xs)" using f unfolding finite_keys_def set_append by simp
  from binarysort_sorted [OF count_run_sorted [OF f c] this]
  have s: "sorted (map key_of (binarysort ?run (drop n ?xs)))" .
  have "sort_reverse es = rev (binarysort ?run (drop n ?xs))"
    using False by (simp add: sort_reverse_def c Let_def)
  then have "rev (sort_reverse es) = binarysort ?run (drop n ?xs)" by simp
  with s show ?thesis by simp
qed

lemma sort_reverse_descending:
  assumes "\<forall>x \<in> set es. \<exists>u. fst x = Fin u"
  shows "descending (sort_reverse es)"
proof -
  have fin: "finite_keys (sort_reverse es)"
    using assms by (simp add: finite_keys_def set_sort_reverse)
  have "finite_keys es" using assms by (simp add: finite_keys_def)
  then have "sorted (map key_of (rev (sort_reverse es)))" by (rule sort_reverse_sorted)
  then have "sorted_wrt (\<lambda>x y. key_of x \<le> key_of y) (rev (sort_reverse es))"
    by (simp only: sorted_map)
  then have s: "sorted_wrt (\<lambda>x y. key_of y \<le> key_of x) (sort_reverse es)"
    by (simp only: sorted_wrt_rev)
  have "\<not> np_lt (fst x) (fst y)"
    if "x \<in> set (sort_reverse es)" "y \<in> set (sort_reverse es)" "key_of y \<le> key_of x" for x y
  proof -
    from fin that(1,2) obtain u v where "fst x = Fin u" "fst y = Fin v"
      unfolding finite_keys_def by blast
    with that(3) show ?thesis by (simp add: key_of_def)
  qed
  with s show ?thesis unfolding descending_def by (rule sorted_wrt_mono_rel [rotated])
qed

lemma ant_max_greatest:
  assumes "\<forall>x \<in> set d. \<exists>u. fst x = Fin u" and "ant_max a d = Some xy"
  shows "\<exists>k. (k, xy) \<in> set d \<and> xy \<notin> set (pos_memory a)
    \<and> (\<forall>e \<in> set d. snd e \<notin> set (pos_memory a) \<longrightarrow> \<not> np_lt k (fst e))"
proof -
  let ?f = "filter (\<lambda>e. snd e \<notin> set (pos_memory a)) (sort_reverse d)"
  from assms(2) obtain e es where f: "?f = e # es" and xy: "xy = snd e"
    by (auto simp: ant_max_def split: list.splits)
  have "descending ?f"
    using sort_reverse_descending [OF assms(1)] by (simp add: descending_def sorted_wrt_filter)
  then have top: "\<forall>y \<in> set es. \<not> np_lt (fst e) (fst y)"
    by (simp add: f descending_def)
  have ein: "e \<in> set ?f" by (simp add: f)
  then have e: "e \<in> set d" "snd e \<notin> set (pos_memory a)" by (simp_all add: set_sort_reverse)
  have "\<not> np_lt (fst e) (fst y)" if y: "y \<in> set d" "snd y \<notin> set (pos_memory a)" for y
  proof -
    from y have "y \<in> set ?f" by (simp add: set_sort_reverse)
    then have "y = e \<or> y \<in> set es" by (simp add: f)
    moreover from assms(1) e(1) obtain u where "fst e = Fin u" by auto
    ultimately show ?thesis using top by auto
  qed
  with e xy show ?thesis by (intro exI [of _ "fst e"]) auto
qed

lemma ant_max_None: "ant_max a d = None \<longleftrightarrow> (\<forall>e \<in> set d. snd e \<in> set (pos_memory a))"
proof -
  have "ant_max a d = None \<longleftrightarrow> filter (\<lambda>e. snd e \<notin> set (pos_memory a)) (sort_reverse d) = []"
    by (simp add: ant_max_def split: list.splits)
  then show ?thesis by (simp add: filter_empty_conv set_sort_reverse)
qed


lemma zip_map_self: "set (zip (map f xs) xs) = (\<lambda>x. (f x, x)) ` set xs"
  by (induction xs) auto

lemma selection_dict_without_ties:
  assumes "distinct (map (probability c a ds) (positions_of c a ds))"
    and "\<forall>xy \<in> set (positions_of c a ds). \<exists>u. probability c a ds xy = Fin u"
  shows "get_max_probability_pos c a ds =
    ant_max a (zip (map (probability c a ds) (positions_of c a ds)) (positions_of c a ds))"
proof -
  let ?ps = "positions_of c a ds"
  have e: "map (\<lambda>x. np_div x (py_sum (map (index_probability c) ?ps))) (map (index_probability c) ?ps)
    = map (probability c a ds) ?ps"
    by (simp add: probability_def)
  have "dict_zip (map (probability c a ds) ?ps) ?ps = zip (map (probability c a ds) ?ps) ?ps"
    using assms by (intro dict_zip_distinct) auto
  then show ?thesis
    unfolding get_max_probability_pos_def get_index_probabilities_def prod.case Let_def e
    by (rule arg_cong)
qed

text \<open>When the probabilities of the candidates are finite and pairwise different, the
  selection is what the docstring of \<open>get_max_probability_pos\<close> says: a candidate outside
  the memory that no other such candidate beats, and \<open>None\<close> exactly when every candidate
  is in the memory.\<close>

lemma selection_without_ties_Some:
  assumes "distinct (map (probability c a ds) (positions_of c a ds))"
    and "\<forall>xy \<in> set (positions_of c a ds). \<exists>u. probability c a ds xy = Fin u"
    and "get_max_probability_pos c a ds = Some xy"
  shows "xy \<in> set (positions_of c a ds) \<and> xy \<notin> set (pos_memory a)
    \<and> (\<forall>xy' \<in> set (positions_of c a ds). xy' \<notin> set (pos_memory a) \<longrightarrow>
          \<not> np_lt (probability c a ds xy) (probability c a ds xy'))"
proof -
  let ?ps = "positions_of c a ds"
  let ?d = "zip (map (probability c a ds) ?ps) ?ps"
  have d: "set ?d = (\<lambda>x. (probability c a ds x, x)) ` set ?ps" by (rule zip_map_self)
  have fin: "\<forall>x \<in> set ?d. \<exists>u. fst x = Fin u" using assms(2) unfolding d by auto
  have "ant_max a ?d = Some xy"
    using assms(3) selection_dict_without_ties [OF assms(1,2)] by simp
  from ant_max_greatest [OF fin this] obtain k where k: "(k, xy) \<in> set ?d"
    "xy \<notin> set (pos_memory a)"
    "\<forall>e \<in> set ?d. snd e \<notin> set (pos_memory a) \<longrightarrow> \<not> np_lt k (fst e)" by blast
  from k(1) have kx: "xy \<in> set ?ps" "k = probability c a ds xy" unfolding d by auto
  have "\<not> np_lt (probability c a ds xy) (probability c a ds xy')"
    if "xy' \<in> set ?ps" "xy' \<notin> set (pos_memory a)" for xy'
  proof -
    from that(1) have "(probability c a ds xy', xy') \<in> set ?d" unfolding d by (rule imageI)
    with k(3) that(2) show ?thesis unfolding kx(2) by fastforce
  qed
  with kx(1) k(2) show ?thesis by blast
qed

lemma selection_without_ties_None:
  assumes "distinct (map (probability c a ds) (positions_of c a ds))"
    and "\<forall>xy \<in> set (positions_of c a ds). \<exists>u. probability c a ds xy = Fin u"
  shows "get_max_probability_pos c a ds = None
    \<longleftrightarrow> set (positions_of c a ds) \<subseteq> set (pos_memory a)"
  unfolding selection_dict_without_ties [OF assms] ant_max_None zip_map_self by auto

section \<open>Keys that are not numbers, and weights out of range\<close>

lemmas sort_defs =
  sort_reverse_def key_lt_def binarysort_def binary_insert_def
  bisect_stop bisect_left bisect_right

text \<open>Two lists of keys on which \<open>nan\<close> stands among numbers, sorted as CPython sorts
  them: \<open>[0.0, nan, 0.25, 0.5]\<close> and \<open>[0.25, 0.0, nan, 0.5]\<close>.\<close>

lemma sort_reverse_nan_second:
  "sort_reverse [(Fin 0, xy1), (NaN, xy2), (Fin (1 / 4), xy3), (Fin (1 / 2), xy4)]
     = [(NaN, xy2), (Fin (1 / 2), xy4), (Fin (1 / 4), xy3), (Fin 0, xy1)]"
  by (simp add: sort_defs)

lemma sort_reverse_nan_third:
  "sort_reverse [(Fin (1 / 4), xy1), (Fin 0, xy2), (NaN, xy3), (Fin (1 / 2), xy4)]
     = [(Fin (1 / 4), xy1), (Fin 0, xy2), (NaN, xy3), (Fin (1 / 2), xy4)]"
  by (simp add: sort_defs)

text \<open>The power \<open>0.0001 ** 100.0\<close> is zero.\<close>

lemma tiny_power: "(1 / 10000 :: real) ^ 100 \<le> 1 / 2 ^ 1075"
proof -
  have "(2::real) ^ 1075 \<le> 2 ^ 1300" by (rule power_increasing) simp_all
  also have "(2::real) ^ 1300 = (2 ^ 13) ^ 100" by (simp add: power_mult [symmetric])
  also have "((2::real) ^ 13) ^ 100 \<le> 10000 ^ 100" by (rule power_mono) simp_all
  finally have "(2::real) ^ 1075 \<le> 10000 ^ 100" .
  then have "1 / (10000::real) ^ 100 \<le> 1 / 2 ^ 1075"
    by (intro divide_left_mono) simp_all
  then show ?thesis by (simp only: power_one_over)
qed

lemma np_pow_underflow: "np_pow (Fin (1 / 10000)) 100 = Fin 0"
proof -
  have e: "(1 / 10000 :: real) powr 100 = (1 / 10000) ^ 100" by simp
  have "(1 / 10000 :: real) ^ 100 \<le> 1" by (rule power_le_one) simp_all
  moreover have "(1::real) < 2 ^ 1024 - 2 ^ 970" by simp
  ultimately have top: "\<not> (2 ^ 1024 - 2 ^ 970 \<le> \<bar>(1 / 10000 :: real) ^ 100\<bar>)" by simp
  have low: "\<bar>(1 / 10000 :: real) ^ 100\<bar> \<le> 1 / 2 ^ 1075" using tiny_power by simp
  have "float64_range ((1 / 10000) ^ 100) = Fin 0"
    unfolding float64_range_def using top low by (simp only: if_True if_False)
  then have "float64_range ((1 / 10000) powr 100) = Fin 0" by (simp only: e)
  then show ?thesis by (simp del: powr_numeral)
qed

text \<open>With \<open>alpha = 100\<close> the weights of the two neighbours of the ant of \<open>strip\<close>, which
  lie on the edge, are zero although their pheromone and their intensity are not. Their
  probabilities are \<open>nan\<close>, the first of them is selected, and since its intensity is
  above \<open>b\<close> the ant moves there and deposits.\<close>

lemma colony_init_is_steep:
  "colony_init (\<lambda>_. (0, 2)) 1 5 strip_img 1 (1 / 10) 2 2 (1 / 10000) (1 / 20) 100 1
     = Some (Inr strip_steep)"
proof (rule colony_init_eq [where pairs = "{(0, 2)}" and k = 1])
  show "img_max 1 5 strip_img = Inr (i_max strip_steep)"
    using img_max_strip by (simp add: strip_steep_def strip_def)
  show "place_ants 1 5 (\<lambda>_. (0, 2)) 1 = Some (Inr (ants strip_steep, {(0, 2)}, 1))"
    using place_one by (simp add: strip_steep_def strip_def)
  have ib: "in_bounds strip_steep xy = in_bounds strip xy" for xy
    by (rule in_bounds_cong) (simp_all add: strip_steep_def)
  have pc: "pixel_intensity strip_steep i j = pixel_intensity strip i j" for i j
    by (rule pixel_intensity_cong) (simp_all add: strip_steep_def)
  show "intensities strip_steep i j =
      (if in_bounds strip_steep (i, j) then pixel_intensity strip_steep i j else Fin 0)"
    for i j
    unfolding ib pc
    by (auto simp: strip_intensities) (auto simp: in_bounds_def strip_steep_def strip_def)
  show "pheromone strip_steep i j l =
      (if in_bounds strip_steep (i, j) \<and> l = 2 then Fin (1 / 10000) else Fin 0)"
    for i j l
    by (auto simp: in_bounds_def strip_steep_def strip_def)
qed (simp_all add: strip_steep_def strip_def)

lemma np_pow_unit: "np_pow (Fin 1) 1 = Fin 1"
  by (simp add: float64_range_unit)

lemma steep_weights:
  "get_index_probabilities strip_steep (update_memory strip_steep (ants strip_steep ! 0))
     (order plain_rnd) = ([Fin 0, Fin 0], [(0, 3), (0, 1)])"
proof -
  have i: "index_probability strip_steep (0, 3) = Fin 0" "index_probability strip_steep (0, 1) = Fin 0"
    unfolding index_probability_def prod.case
    by (simp_all add: strip_steep_def strip_def np_pow_underflow np_pow_unit del: np_pow.simps)
  have "positions_of strip_steep (update_memory strip_steep (ants strip_steep ! 0))
     (order plain_rnd) = [(0, 3), (0, 1)]"
    by (simp add: positions_of_def update_memory_def directions_def in_bounds_def plain_rnd_def
        strip_steep_def strip_def)
  then show ?thesis by (simp add: get_index_probabilities_def i)
qed

lemma zero_weights_underflow_move:
  "py_sum (fst (get_index_probabilities strip_steep
      (update_memory strip_steep (ants strip_steep ! 0)) (order plain_rnd))) = Fin 0
   \<and> pheromone strip_steep 0 3 (m strip_steep) = Fin (1 / 10000)
   \<and> intensities strip_steep 0 3 = Fin 1
   \<and> b strip_steep = 1 / 20 \<and> beta strip_steep = 1
   \<and> deposit_pheromone plain_rnd strip_steep (ants strip_steep ! 0) =
       Inr (\<lparr>row = 0, col = 3, pos_memory = [(0, 2)], special = True\<rparr>,
            (pheromone strip_steep)(0 := (pheromone strip_steep 0)
               (3 := (pheromone strip_steep 0 3)(0 := Fin 1))))"
proof -
  let ?a = "update_memory strip_steep (ants strip_steep ! 0)"
  have s: "py_sum (fst (get_index_probabilities strip_steep ?a (order plain_rnd))) = Fin 0"
    by (simp add: steep_weights py_sum_def)
  have z: "\<forall>xy \<in> set (positions_of strip_steep ?a (order plain_rnd)).
      index_probability strip_steep xy = Fin 0"
    using steep_weights by (auto simp: get_index_probabilities_def)
  have ps: "positions_of strip_steep ?a (order plain_rnd) = [(0, 3), (0, 1)]"
    using steep_weights by (simp add: get_index_probabilities_def)
  have mem: "pos_memory ?a = [(0, 2)]"
    by (simp add: update_memory_def strip_steep_def strip_def)
  have sel: "get_max_probability_pos strip_steep ?a (order plain_rnd) = Some (0, 3)"
    unfolding zero_weights_selection(2) [OF z] ps mem by simp
  have ge: "np_ge (intensities strip_steep 0 3) (Fin (b strip_steep))"
    by (simp add: strip_steep_def strip_def)
  have d: "deposit_pheromone plain_rnd strip_steep (ants strip_steep ! 0) =
       Inr (\<lparr>row = 0, col = 3, pos_memory = [(0, 2)], special = True\<rparr>,
            (pheromone strip_steep)(0 := (pheromone strip_steep 0)
               (3 := (pheromone strip_steep 0 3)(0 := Fin 1))))"
    using deposit_pheromone_move [OF sel ge]
    by (simp add: update_memory_def strip_steep_def strip_def)
  have f: "pheromone strip_steep 0 3 (m strip_steep) = Fin (1 / 10000)"
    "intensities strip_steep 0 3 = Fin 1" "b strip_steep = 1 / 20" "beta strip_steep = 1"
    by (simp_all add: strip_steep_def strip_def)
  from s f d show ?thesis by blast
qed

end
